theory Spec2Isabelle
  imports Main "HOL-Library.Word"
begin

unbundle bit_operations_syntax

section \<open>The PCG32 random number generator (util/rng.h)\<close>

type_synonym uint64_t = "64 word"
type_synonym uint32_t = "32 word"

text \<open>\<^verbatim>\<open>int64_t\<close> values are kept as 64-bit words as well: the casts
  \<^verbatim>\<open>(uint64_t)idelta\<close> and \<^verbatim>\<open>(int64_t)distance\<close> of the source keep the
  bit pattern, and \<open>sint\<close> reads the signed value.\<close>

type_synonym int64_t = "64 word"

definition PCG32_DEFAULT_STATE :: uint64_t where
  "PCG32_DEFAULT_STATE = 0x853c49e6748fea9b"

definition PCG32_DEFAULT_STREAM :: uint64_t where
  "PCG32_DEFAULT_STREAM = 0xda3e39cb94b95bdb"

definition PCG32_MULT :: uint64_t where
  "PCG32_MULT = 0x5851f42d4c957f2d"

text \<open>The private data of \<^verbatim>\<open>class RNG\<close>. The field \<^verbatim>\<open>inc\<close> is called
  \<open>inc_v\<close> here, since \<open>inc\<close> is a constant of HOL.\<close>

record RNG =
  state :: uint64_t
  inc_v :: uint64_t

datatype fatal = CHECK_EQ_inc | CHECK_EQ_bit | CHECK_Cindex | DCHECK_memcmp | Division_by_zero

text \<open>\<^verbatim>\<open>RNG::RNG()\<close>\<close>

definition RNG_default :: RNG where
  "RNG_default = \<lparr>state = PCG32_DEFAULT_STATE, inc_v = PCG32_DEFAULT_STREAM\<rparr>"

text \<open>\<^verbatim>\<open>RNG::Uniform<uint32_t>()\<close>: the value drawn and the generator after the draw.\<close>

definition Uniform_uint32 :: "RNG \<Rightarrow> uint32_t \<times> RNG" where
  "Uniform_uint32 r =
     (let oldstate = state r;
          r' = r\<lparr>state := oldstate * PCG32_MULT + inc_v r\<rparr>;
          xorshifted = (ucast (drop_bit 27 (drop_bit 18 oldstate XOR oldstate)) :: uint32_t);
          rot = (ucast (drop_bit 59 oldstate) :: uint32_t)
      in (drop_bit (unat rot) xorshifted OR
            push_bit (unat ((NOT rot + 1) AND 31)) xorshifted, r'))"

text \<open>\<^verbatim>\<open>RNG::Uniform<uint64_t>()\<close>: two 32-bit draws, the first one in the high half.\<close>

definition Uniform_uint64 :: "RNG \<Rightarrow> uint64_t \<times> RNG" where
  "Uniform_uint64 r =
     (let (v0, r1) = Uniform_uint32 r;
          (v1, r2) = Uniform_uint32 r1
      in (push_bit 32 (ucast v0 :: uint64_t) OR ucast v1, r2))"

text \<open>\<^verbatim>\<open>RNG::SetSequence(sequenceIndex, seed)\<close>\<close>

definition SetSequence :: "RNG \<Rightarrow> uint64_t \<Rightarrow> uint64_t \<Rightarrow> RNG" where
  "SetSequence r sequenceIndex seed =
     (let r1 = r\<lparr>state := 0, inc_v := push_bit 1 sequenceIndex OR 1\<rparr>;
          r2 = snd (Uniform_uint32 r1);
          r3 = r2\<lparr>state := state r2 + seed\<rparr>
      in snd (Uniform_uint32 r3))"

text \<open>\<^verbatim>\<open>RNG::RNG(sequenceIndex, seed)\<close>: the fields are uninitialised before
  \<^verbatim>\<open>SetSequence\<close> overwrites both, so the constructor is a function of its arguments.\<close>

definition RNG_ctor :: "uint64_t \<Rightarrow> uint64_t \<Rightarrow> RNG" where
  "RNG_ctor sequenceIndex seed = SetSequence RNG_default sequenceIndex seed"

text \<open>The loop of \<^verbatim>\<open>RNG::Advance\<close>, on
  \<^verbatim>\<open>(curMult, curPlus, accMult, accPlus, delta)\<close>; it returns
  \<^verbatim>\<open>(accMult, accPlus)\<close>.\<close>

function Advance_loop ::
  "uint64_t \<Rightarrow> uint64_t \<Rightarrow> uint64_t \<Rightarrow> uint64_t \<Rightarrow> uint64_t \<Rightarrow> uint64_t \<times> uint64_t" where
  "Advance_loop curMult curPlus accMult accPlus delta =
     (if delta > 0 then
        (if delta AND 1 \<noteq> 0
         then Advance_loop (curMult * curMult) ((curMult + 1) * curPlus)
                (accMult * curMult) (accPlus * curMult + curPlus) (delta div 2)
         else Advance_loop (curMult * curMult) ((curMult + 1) * curPlus)
                accMult accPlus (delta div 2))
      else (accMult, accPlus))"
  by pat_completeness auto
termination
proof (relation "measure (\<lambda>(cm, cp, am, ap, d). unat d)")
  show "wf (measure (\<lambda>(cm, cp, am, ap, d). unat d))" by simp
next
  fix curMult curPlus accMult accPlus delta :: uint64_t
  assume "0 < delta"
  then have "unat (delta div 2) < unat delta"
    by (simp add: unat_div word_less_nat_alt)
  then show "((curMult * curMult, (curMult + 1) * curPlus, accMult * curMult,
        accPlus * curMult + curPlus, delta div 2),
       curMult, curPlus, accMult, accPlus, delta) \<in> measure (\<lambda>(cm, cp, am, ap, d). unat d)"
    and "((curMult * curMult, (curMult + 1) * curPlus, accMult, accPlus, delta div 2),
       curMult, curPlus, accMult, accPlus, delta) \<in> measure (\<lambda>(cm, cp, am, ap, d). unat d)"
    by simp_all
qed

declare Advance_loop.simps [simp del]

text \<open>\<^verbatim>\<open>RNG::Advance(idelta)\<close>\<close>

definition Advance :: "RNG \<Rightarrow> int64_t \<Rightarrow> RNG" where
  "Advance r idelta =
     (let (accMult, accPlus) = Advance_loop PCG32_MULT (inc_v r) 1 0 idelta
      in r\<lparr>state := accMult * state r + accPlus\<rparr>)"

text \<open>The loop of \<^verbatim>\<open>RNG::operator-\<close>, on
  \<^verbatim>\<open>(state, curMult, curPlus, curState, theBit, distance)\<close>. Nothing in the loop
  bounds the number of rounds, so the model is a partial function: \<open>None\<close> is a loop
  that never ends, \<open>Some (Inl e)\<close> a failed \<^verbatim>\<open>CHECK\<close>.\<close>

partial_function (option) minus_loop ::
  "uint64_t \<Rightarrow> uint64_t \<Rightarrow> uint64_t \<Rightarrow> uint64_t \<Rightarrow> uint64_t \<Rightarrow> uint64_t
     \<Rightarrow> (fatal + uint64_t) option" where
  "minus_loop st curMult curPlus curState theBit distance =
     (if st \<noteq> curState then
        (let (curState', distance') =
               (if st AND theBit \<noteq> curState AND theBit
                then (curState * curMult + curPlus, distance OR theBit)
                else (curState, distance))
         in if st AND theBit \<noteq> curState' AND theBit then Some (Inl CHECK_EQ_bit)
            else minus_loop st (curMult * curMult) ((curMult + 1) * curPlus)
                   curState' (push_bit 1 theBit) distance')
      else Some (Inr distance))"

text \<open>\<^verbatim>\<open>RNG::operator-(other)\<close>\<close>

definition RNG_minus :: "RNG \<Rightarrow> RNG \<Rightarrow> (fatal + int64_t) option" where
  "RNG_minus r other =
     (if inc_v r \<noteq> inc_v other then Some (Inl CHECK_EQ_inc)
      else minus_loop (state r) PCG32_MULT (inc_v r) (state other) 1 0)"

text \<open>\<^verbatim>\<open>RNG::Uniform(T b)\<close> for \<^verbatim>\<open>T = uint32_t\<close>: the loop
  \<^verbatim>\<open>while (true)\<close>, given the threshold. The source has no bound on the number of
  draws, so the loop is a partial function.\<close>

partial_function (option) Uniform_loop32 ::
  "uint32_t \<Rightarrow> uint32_t \<Rightarrow> RNG \<Rightarrow> (uint32_t \<times> RNG) option" where
  "Uniform_loop32 threshold b rng =
     (case Uniform_uint32 rng of
        (r, rng') \<Rightarrow> if r \<ge> threshold then Some (r mod b, rng')
                    else Uniform_loop32 threshold b rng')"

text \<open>The whole method. In \<^verbatim>\<open>(~b + 1u) % b\<close> the operands are unsigned 32-bit
  values. For \<open>b = 0\<close> the source divides by zero, which C++ leaves undefined; the model
  reports it as a failure.\<close>

definition Uniform_b32 :: "RNG \<Rightarrow> uint32_t \<Rightarrow> (fatal + uint32_t \<times> RNG) option" where
  "Uniform_b32 rng b =
     (if b = 0 then Some (Inl Division_by_zero)
      else map_option Inr (Uniform_loop32 ((NOT b + 1) mod b) b rng))"

text \<open>The same method for \<^verbatim>\<open>T = uint64_t\<close>; \<^verbatim>\<open>~b + 1u\<close> is then a 64-bit
  value.\<close>

partial_function (option) Uniform_loop64 ::
  "uint64_t \<Rightarrow> uint64_t \<Rightarrow> RNG \<Rightarrow> (uint64_t \<times> RNG) option" where
  "Uniform_loop64 threshold b rng =
     (case Uniform_uint64 rng of
        (r, rng') \<Rightarrow> if r \<ge> threshold then Some (r mod b, rng')
                    else Uniform_loop64 threshold b rng')"

definition Uniform_b64 :: "RNG \<Rightarrow> uint64_t \<Rightarrow> (fatal + uint64_t \<times> RNG) option" where
  "Uniform_b64 rng b =
     (if b = 0 then Some (Inl Division_by_zero)
      else map_option Inr (Uniform_loop64 ((NOT b + 1) mod b) b rng))"

text \<open>The generators a program can hold: built by a constructor, then changed by the
  public methods. \<^verbatim>\<open>RNG(sequenceIndex)\<close> and \<^verbatim>\<open>SetSequence(sequenceIndex)\<close>
  are the two-argument forms with the seed \<^verbatim>\<open>MixBits(sequenceIndex)\<close>; the other
  instances of \<^verbatim>\<open>Uniform<T>()\<close> change the generator only through the 32-bit and
  64-bit draws; \<^verbatim>\<open>operator-\<close> is \<^verbatim>\<open>const\<close>.\<close>

inductive RNG_reachable :: "RNG \<Rightarrow> bool" where
  reach_default: "RNG_reachable RNG_default"
| reach_ctor: "RNG_reachable (RNG_ctor sequenceIndex seed)"
| reach_SetSequence: "RNG_reachable r \<Longrightarrow> RNG_reachable (SetSequence r sequenceIndex seed)"
| reach_Uniform_uint32: "RNG_reachable r \<Longrightarrow> RNG_reachable (snd (Uniform_uint32 r))"
| reach_Uniform_uint64: "RNG_reachable r \<Longrightarrow> RNG_reachable (snd (Uniform_uint64 r))"
| reach_Advance: "RNG_reachable r \<Longrightarrow> RNG_reachable (Advance r idelta)"
| reach_Uniform_b32:
    "RNG_reachable r \<Longrightarrow> Uniform_b32 r b = Some (Inr (v, r')) \<Longrightarrow> RNG_reachable r'"
| reach_Uniform_b64:
    "RNG_reachable r \<Longrightarrow> Uniform_b64 r c = Some (Inr (w, r')) \<Longrightarrow> RNG_reachable r'"

text \<open>The generator after \<open>n\<close> raw draws, and the raw draw that comes next.\<close>

definition after32 :: "RNG \<Rightarrow> nat \<Rightarrow> RNG" where
  "after32 r n = ((\<lambda>g. snd (Uniform_uint32 g)) ^^ n) r"

definition raw32 :: "RNG \<Rightarrow> nat \<Rightarrow> uint32_t" where
  "raw32 r n = fst (Uniform_uint32 (after32 r n))"

definition after64 :: "RNG \<Rightarrow> nat \<Rightarrow> RNG" where
  "after64 r n = ((\<lambda>g. snd (Uniform_uint64 g)) ^^ n) r"

definition raw64 :: "RNG \<Rightarrow> nat \<Rightarrow> uint64_t" where
  "raw64 r n = fst (Uniform_uint64 (after64 r n))"


subsection \<open>Auxiliary notions for the linear congruential step\<close>

text \<open>One step of the generator is the affine map \<open>x \<mapsto> x * m + p\<close> on 64-bit
  words, with \<open>m = PCG32_MULT\<close> and \<open>p = inc\<close>. Both loops of the class keep a pair
  \<^verbatim>\<open>(curMult, curPlus)\<close> that stands for such a map.\<close>

definition aff :: "uint64_t \<Rightarrow> uint64_t \<Rightarrow> uint64_t \<Rightarrow> uint64_t" where
  "aff m p x = x * m + p"

text \<open>After \<open>j\<close> squarings the pair \<^verbatim>\<open>(curMult, curPlus)\<close> has this shape:
  the map adds \<open>2 ^ j\<close> modulo \<open>2 ^ (j + 1)\<close>.\<close>

definition lcg_form :: "nat \<Rightarrow> uint64_t \<Rightarrow> uint64_t \<Rightarrow> bool" where
  "lcg_form j m p \<longleftrightarrow> (\<exists>a b. m = 1 + 2 ^ (j + 2) * a \<and> p = 2 ^ j + 2 ^ (j + 1) * b)"


section \<open>The max-min-distance sampler (samplers/maxmin.h)\<close>

text \<open>Modelled from the spec: the helpers \<^verbatim>\<open>Log2Int\<close>, \<^verbatim>\<open>IsPowerOf2\<close> and
  \<^verbatim>\<open>RoundUpPow2\<close> are declared in a header that is not among the sources. The
  spec and their use in the constructor say: the integer base-2 logarithm, the test for
  a power of two, and rounding up to the next power of two. They are only applied to
  positive sample counts here.\<close>

fun floor_log2 :: "nat \<Rightarrow> nat" where
  "floor_log2 v = (if v < 2 then 0 else Suc (floor_log2 (v div 2)))"

declare floor_log2.simps [simp del]

definition Log2Int :: "int \<Rightarrow> int" where
  "Log2Int v = int (floor_log2 (nat v))"

definition IsPowerOf2 :: "int \<Rightarrow> bool" where
  "IsPowerOf2 v \<longleftrightarrow> 0 < v \<and> v = 2 ^ floor_log2 (nat v)"

definition RoundUpPow2 :: "int \<Rightarrow> int" where
  "RoundUpPow2 v = (if IsPowerOf2 v then v else 2 ^ Suc (floor_log2 (nat v)))"

datatype warning =
  No_more_than_supported int   \<comment> \<open>"No more than %d samples per pixel are supported ..."\<close>
| Rounded_up_to int            \<comment> \<open>"Non power-of-two sample count rounded up to %d ..."\<close>

text \<open>The fields of the base class \<^verbatim>\<open>PixelSampler\<close> that its constructor sets from
  its two arguments, and the row of the table \<^verbatim>\<open>CMaxMinDist\<close> that \<^verbatim>\<open>CPixel\<close>
  points to. The table itself is not among the sources; \<open>nC\<close> stands for its number
  of rows, \<^verbatim>\<open>sizeof(CMaxMinDist) / sizeof(CMaxMinDist[0])\<close>.\<close>

record MaxMinDistSampler =
  samplesPerPixel :: int
  nSampledDimensions :: int
  CPixel :: int

text \<open>The lambda in the initialiser list: the sample count handed to the base class,
  and the warnings it prints.\<close>

definition round_spp :: "nat \<Rightarrow> int \<Rightarrow> int \<times> warning list" where
  "round_spp nC spp =
     (let Cindex = Log2Int spp;
          (spp1, w1) = (if Cindex \<ge> int nC
                        then (2 ^ nC - 1, [No_more_than_supported (2 ^ nC - 1)])
                        else (spp, []));
          (spp2, w2) = (if \<not> IsPowerOf2 spp1
                        then (RoundUpPow2 spp1, [Rounded_up_to (RoundUpPow2 spp1)])
                        else (spp1, []))
      in (spp2, w1 @ w2))"

text \<open>The constructor \<^verbatim>\<open>MaxMinDistSampler(samplesPerPixel, nSampledDimensions)\<close>. In
  its body the name \<^verbatim>\<open>samplesPerPixel\<close> is the constructor's parameter, which hides
  the member of the base class: \<^verbatim>\<open>Cindex\<close> is computed from the count as requested,
  not from the rounded one. The result is the list of warnings printed, and the object
  or the failed \<^verbatim>\<open>CHECK\<close>.\<close>

definition MaxMinDistSampler_ctor ::
  "nat \<Rightarrow> int \<Rightarrow> int \<Rightarrow> warning list \<times> (fatal + MaxMinDistSampler)" where
  "MaxMinDistSampler_ctor nC samplesPerPixel_arg nSampledDimensions_arg =
     (let (spp, warnings) = round_spp nC samplesPerPixel_arg;
          Cindex = Log2Int samplesPerPixel_arg
      in (warnings,
          if Cindex \<ge> 0 \<and> Cindex < int nC
          then Inr \<lparr>samplesPerPixel = spp, nSampledDimensions = nSampledDimensions_arg,
                    CPixel = Cindex\<rparr>
          else Inl CHECK_Cindex))"


section \<open>Pixel samplers\<close>

type_synonym Point2i = "int \<times> int"

text \<open>Modelled from the spec: \<^verbatim>\<open>PixelSampler::StartSequence\<close> is not among the
  sources (only the test that calls it is). The spec's state machine: a sampler starts
  uninitialised; \<^verbatim>\<open>StartSequence(pixel, index)\<close> regenerates the sample table through
  \<^verbatim>\<open>GeneratePixelSamples\<close> if the pixel differs from the last one, and always resets the
  cursors of the sequence. The field \<open>calls\<close> is the counter that the test's
  \<^verbatim>\<open>TestSampler::GeneratePixelSamples\<close> increments.\<close>

record PixelSampler =
  lastPixel :: "Point2i option"
  currentSampleIndex :: int
  current1DDimension :: nat
  current2DDimension :: nat
  array1DOffset :: nat
  array2DOffset :: nat
  calls :: nat

definition TestSampler :: PixelSampler where
  "TestSampler = \<lparr>lastPixel = None, currentSampleIndex = 0, current1DDimension = 0,
     current2DDimension = 0, array1DOffset = 0, array2DOffset = 0, calls = 0\<rparr>"

definition GeneratePixelSamples :: "PixelSampler \<Rightarrow> PixelSampler" where
  "GeneratePixelSamples ts = ts\<lparr>calls := calls ts + 1\<rparr>"

definition StartSequence :: "Point2i \<Rightarrow> int \<Rightarrow> PixelSampler \<Rightarrow> PixelSampler" where
  "StartSequence p sampleIndex ts =
     (let ts1 = (if lastPixel ts \<noteq> Some p then GeneratePixelSamples ts else ts)
      in ts1\<lparr>lastPixel := Some p, currentSampleIndex := sampleIndex,
              current1DDimension := 0, current2DDimension := 0,
              array1DOffset := 0, array2DOffset := 0\<rparr>)"

text \<open>A run of \<^verbatim>\<open>StartSequence\<close> calls, in order.\<close>

fun StartSequences :: "(Point2i \<times> int) list \<Rightarrow> PixelSampler \<Rightarrow> PixelSampler" where
  "StartSequences [] ts = ts"
| "StartSequences ((p, i) # vs) ts = StartSequences vs (StartSequence p i ts)"

text \<open>The number of places in a run where the pixel differs from the one before
  (\<open>prev\<close> is the pixel before the run, if any).\<close>

fun pixel_changes :: "Point2i option \<Rightarrow> (Point2i \<times> int) list \<Rightarrow> nat" where
  "pixel_changes prev [] = 0"
| "pixel_changes prev ((p, i) # vs) =
     (if prev \<noteq> Some p then 1 else 0) + pixel_changes (Some p) vs"


section \<open>Generator matrices\<close>

text \<open>Modelled from the spec: \<^verbatim>\<open>MultiplyGenerator\<close> and \<^verbatim>\<open>ReverseBits32\<close> are
  declared in a header that is not among the sources. The spec: given 32 columns and an
  index \<open>a\<close>, \<^verbatim>\<open>MultiplyGenerator\<close> is the exclusive or of the columns \<open>C[i]\<close> for which
  bit \<open>i\<close> of \<open>a\<close> is set; \<^verbatim>\<open>ReverseBits32\<close> reverses the order of the 32 bits.\<close>

definition MultiplyGenerator :: "uint32_t list \<Rightarrow> uint32_t \<Rightarrow> uint32_t" where
  "MultiplyGenerator C a = fold (\<lambda>i v. if bit a i then v XOR C ! i else v) [0..<32] 0"

definition ReverseBits32 :: "uint32_t \<Rightarrow> uint32_t" where
  "ReverseBits32 n = word_reverse n"

text \<open>The identity matrix of the test: \<^verbatim>\<open>C[i] = 1 << i\<close>.\<close>

definition identity_matrix :: "uint32_t list" where
  "identity_matrix = map (\<lambda>i. push_bit i 1) [0..<32]"


section \<open>The buffer cache (util/buffercache.h)\<close>

text \<open>\<^verbatim>\<open>struct BufferId\<close>; its \<^verbatim>\<open>operator==\<close> compares both fields, as equality of
  records does. The field \<^verbatim>\<open>size\<close> is called \<open>size_v\<close>, since \<open>size\<close> is a constant of
  HOL.\<close>

record BufferId =
  hash :: uint64_t
  size_v :: nat

text \<open>Addresses of the vectors that \<^verbatim>\<open>alloc.new_object\<close> creates. The method returns
  \<^verbatim>\<open>data()\<close> of such a vector; the model returns the address of the vector.\<close>

type_synonym ptr = nat

text \<open>\<^verbatim>\<open>class BufferCache<T>\<close>: the hash table \<^verbatim>\<open>cache\<close>, the vectors it points to,
  the allocator (the next fresh address), and the three statistics counters that
  \<^verbatim>\<open>LookupOrAdd\<close> updates.\<close>

record 'a BufferCache =
  cache :: "BufferId \<rightharpoonup> ptr"
  store :: "ptr \<rightharpoonup> 'a list"
  next_free :: ptr
  nBufferCacheLookups :: nat
  nBufferCacheHits :: nat
  redundantBufferBytes :: nat

definition BufferCache_init :: "'a BufferCache" where
  "BufferCache_init = \<lparr>cache = Map.empty, store = Map.empty, next_free = 0,
     nBufferCacheLookups = 0, nBufferCacheHits = 0, redundantBufferBytes = 0\<rparr>"

text \<open>\<^verbatim>\<open>BufferId(ptr, size)\<close>. \<^verbatim>\<open>HashBuffer\<close> is declared in a header that is not among
  the sources; it is a function of the bytes of the buffer, here the parameter
  \<open>HashBuffer\<close> on the contents. \<open>sizeof_T\<close> is \<^verbatim>\<open>sizeof(T)\<close>.\<close>

definition BufferId_of :: "('a list \<Rightarrow> uint64_t) \<Rightarrow> nat \<Rightarrow> 'a list \<Rightarrow> BufferId" where
  "BufferId_of HashBuffer sizeof_T buf =
     \<lparr>hash = HashBuffer buf, size_v = length buf * sizeof_T\<rparr>"

text \<open>\<^verbatim>\<open>BufferCache::LookupOrAdd(buf)\<close>, as one step under the lock. \<open>debug\<close> tells
  whether \<^verbatim>\<open>DCHECK\<close> is compiled in. The \<^verbatim>\<open>memcmp\<close> compares the bytes of \<open>buf\<close> with
  the stored vector, which has the same number of bytes; a vector's capacity is taken to
  be its size.\<close>

definition LookupOrAdd ::
  "('a list \<Rightarrow> uint64_t) \<Rightarrow> nat \<Rightarrow> bool \<Rightarrow> 'a list \<Rightarrow> 'a BufferCache
     \<Rightarrow> fatal + ptr \<times> 'a BufferCache" where
  "LookupOrAdd HashBuffer sizeof_T debug buf bc =
     (let id = BufferId_of HashBuffer sizeof_T buf;
          bc1 = bc\<lparr>nBufferCacheLookups := nBufferCacheLookups bc + 1\<rparr>
      in case cache bc1 id of
           Some p \<Rightarrow>
             if debug \<and> store bc1 p \<noteq> Some buf then Inl DCHECK_memcmp
             else Inr (p, bc1\<lparr>nBufferCacheHits := nBufferCacheHits bc1 + 1,
                        redundantBufferBytes := redundantBufferBytes bc1 + length buf * sizeof_T\<rparr>)
         | None \<Rightarrow>
             (let p = next_free bc1
              in Inr (p, bc1\<lparr>cache := (cache bc1)(id \<mapsto> p),
                           store := (store bc1)(p \<mapsto> buf),
                           next_free := p + 1\<rparr>)))"

text \<open>A sequence of calls, each on the cache the one before left; it stops at the first
  failed \<^verbatim>\<open>DCHECK\<close>.\<close>

fun LookupOrAdds ::
  "('a list \<Rightarrow> uint64_t) \<Rightarrow> nat \<Rightarrow> bool \<Rightarrow> 'a list list \<Rightarrow> 'a BufferCache
     \<Rightarrow> fatal + ptr list \<times> 'a BufferCache" where
  "LookupOrAdds H s d [] bc = Inr ([], bc)"
| "LookupOrAdds H s d (buf # bufs) bc =
     (case LookupOrAdd H s d buf bc of
        Inl e \<Rightarrow> Inl e
      | Inr (p, bc1) \<Rightarrow>
          (case LookupOrAdds H s d bufs bc1 of
             Inl e \<Rightarrow> Inl e
           | Inr (ps, bc2) \<Rightarrow> Inr (p # ps, bc2)))"

text \<open>What every cache built from the empty one satisfies: entries point below the next
  fresh address, and different keys point to different vectors.\<close>

definition cache_inv :: "'a BufferCache \<Rightarrow> bool" where
  "cache_inv bc \<longleftrightarrow>
     (\<forall>i p. cache bc i = Some p \<longrightarrow> p < next_free bc) \<and>
     (\<forall>i j p. cache bc i = Some p \<and> cache bc j = Some p \<longrightarrow> i = j)"

text \<open>A cache extends another one: it keeps every entry and every vector of it.\<close>

definition cache_extends :: "'a BufferCache \<Rightarrow> 'a BufferCache \<Rightarrow> bool" where
  "cache_extends bc bc' \<longleftrightarrow>
     (\<forall>i p. cache bc i = Some p \<longrightarrow> cache bc' i = Some p \<and> store bc' p = store bc p)"


section \<open>The affine maps of the generator\<close>

lemma aff_comp: "aff (m * m) ((m + 1) * p) = aff m p \<circ> aff m p"
  by (rule ext) (simp add: aff_def algebra_simps)

lemma aff_funpow_double: "aff (m * m) ((m + 1) * p) ^^ n = aff m p ^^ (2 * n)"
proof -
  have "aff m p \<circ> aff m p = aff m p ^^ 2" by (simp add: numeral_2_eq_2)
  then show ?thesis by (simp only: aff_comp funpow_mult)
qed

lemma even_unat_word: "even (unat (d :: uint64_t)) \<longleftrightarrow> even d"
  by (metis even_of_nat mult.right_neutral unsigned_1 word_arith_nat_mult)
  
lemma and_one_neq0: "(d :: uint64_t) AND 1 \<noteq> 0 \<longleftrightarrow> odd d"
  using even_word_iff [of d] by (simp add: even_word_def)

lemma Advance_loop_aff:
  "Advance_loop cm cp am ap d = (am', ap') \<Longrightarrow>
     aff am' ap' x = (aff cm cp ^^ unat d) (aff am ap x)"
proof (induction cm cp am ap d arbitrary: am' ap' rule: Advance_loop.induct)
  case (1 cm cp am ap d)
  show ?case
  proof (cases "d > 0")
    case False
    with "1.prems" show ?thesis
      by (subst (asm) Advance_loop.simps) (simp add: word_gt_0)
  next
    case pos: True
    have half: "unat (d div 2) = unat d div 2" by (simp add: unat_div)
    show ?thesis
    proof (cases "d AND 1 \<noteq> 0")
      case True
      then have "odd d" by (simp add: and_one_neq0)
      then have "odd (unat d)" by (simp add: even_unat_word)
      then have ud: "unat d = Suc (2 * unat (d div 2))" using half by presburger
      from "1.prems" pos True
      have "Advance_loop (cm * cm) ((cm + 1) * cp) (am * cm) (ap * cm + cp) (d div 2) = (am', ap')"
        by (subst (asm) Advance_loop.simps) simp
      from "1.IH"(1) [OF pos True this]
      have "aff am' ap' x = (aff cm cp ^^ (2 * unat (d div 2))) (aff (am * cm) (ap * cm + cp) x)"
        by (simp only: aff_funpow_double)
      also have "aff (am * cm) (ap * cm + cp) x = aff cm cp (aff am ap x)"
        by (simp add: aff_def algebra_simps)
      finally show ?thesis by (simp only: ud funpow_Suc_right o_apply)
    next
      case False
      then have "even d" by (simp add: and_one_neq0)
      then have "even (unat d)" by (simp add: even_unat_word)
      then have ud: "unat d = 2 * unat (d div 2)" using half by presburger
      from "1.prems" pos False
      have "Advance_loop (cm * cm) ((cm + 1) * cp) am ap (d div 2) = (am', ap')"
        by (subst (asm) Advance_loop.simps) simp
      from "1.IH"(2) [OF pos False this]
      have "aff am' ap' x = (aff cm cp ^^ (2 * unat (d div 2))) (aff am ap x)"
        by (simp only: aff_funpow_double)
      then show ?thesis by (simp only: ud)
    qed
  qed
qed

lemma lcg_form_0: "odd c \<Longrightarrow> lcg_form 0 PCG32_MULT c"
proof -
  assume "odd c"
  then obtain b where "c = 2 * b + 1" by (rule oddE)
  moreover have "PCG32_MULT = 1 + 2 ^ 2 * 0x16147D0B53255FCB"
    by (simp add: PCG32_MULT_def)
  ultimately show ?thesis unfolding lcg_form_def 
    by (intro exI [of _ "0x16147D0B53255FCB"] exI [of _ b]) simp
qed

lemma lcg_form_Suc:
  assumes "lcg_form j m p" shows "lcg_form (Suc j) (m * m) ((m + 1) * p)"
proof -
  from assms obtain a b where m: "m = 1 + 2 ^ (j + 2) * a" and p: "p = 2 ^ j + 2 ^ (j + 1) * b"
    unfolding lcg_form_def by blast
  have "m * m = 1 + 2 ^ (Suc j + 2) * (a + 2 ^ (j + 1) * a * a)"
    unfolding m by (simp add: algebra_simps power_add power2_eq_square)
  moreover have "(m + 1) * p = 2 ^ Suc j + 2 ^ (Suc j + 1) * (b + 2 ^ j * a + 2 ^ (j + 1) * a * b)"
    unfolding m p by (simp add: algebra_simps power_add power2_eq_square)
  ultimately show ?thesis unfolding lcg_form_def by blast
qed

subsection \<open>Agreement of words on their low bits\<close>


lemma take_bit_add_exp_int:
  assumes "m \<le> n" shows "take_bit m (b + 2 ^ n * k) = take_bit m (b :: int)"
proof -
  from assms have "(2 :: int) ^ n = 2 ^ m * 2 ^ (n - m)" by (simp flip: power_add)
  then have "b + 2 ^ n * k = b + 2 ^ m * (2 ^ (n - m) * k)" by (simp only: mult.assoc)
  then show ?thesis by (simp only: take_bit_eq_mod mod_mult_self2)
qed

lemma take_bit_diff_0_int:
  "take_bit n a = take_bit n (b :: int) \<Longrightarrow> take_bit n (a - b) = 0"
  by (metis diff_self take_bit_diff take_bit_of_0)

lemma take_bit_add_exp: "take_bit n (b + 2 ^ n * k) = take_bit n (b :: uint64_t)"
  by transfer (simp add: min_def take_bit_add_exp_int)

lemma take_bit_diff_0:
  "take_bit n a = take_bit n (b :: uint64_t) \<Longrightarrow> take_bit n (a - b) = 0"
  by transfer (simp add: min_def take_bit_diff_0_int split: if_splits)

lemma agree_iff_take_bit:
  "2 ^ n dvd (a - b) \<longleftrightarrow> take_bit n a = take_bit n (b :: uint64_t)"
proof
  assume "2 ^ n dvd (a - b)"
  then obtain k where "a - b = 2 ^ n * k" ..
  then have a: "a = b + 2 ^ n * k" by (simp add: algebra_simps)
  show "take_bit n a = take_bit n b" unfolding a by (rule take_bit_add_exp)
next
  assume "take_bit n a = take_bit n b"
  then have "take_bit n (a - b) = 0" by (rule take_bit_diff_0)
  then show "2 ^ n dvd (a - b)" by (simp add: take_bit_eq_0_iff)
qed

lemma and_bit_eq_iff:
  assumes "n < 64"
  shows "(a AND 2 ^ n = b AND 2 ^ n) \<longleftrightarrow> bit a n = bit (b :: uint64_t) n"
proof
  assume "a AND 2 ^ n = b AND 2 ^ n"
  then have "bit (a AND 2 ^ n) n = bit (b AND 2 ^ n) n" by simp
  with assms show "bit a n = bit b n" by (simp add: bit_and_iff bit_exp_iff)
next
  assume "bit a n = bit b n"
  then show "a AND 2 ^ n = b AND 2 ^ n"
    by (intro bit_eqI) (auto simp: bit_and_iff bit_exp_iff)
qed

lemma take_bit_Suc_eq_iff:
  "take_bit (Suc n) a = take_bit (Suc n) b \<longleftrightarrow>
     take_bit n a = take_bit n b \<and> bit a n = bit (b :: uint64_t) n"
proof
  assume e: "take_bit (Suc n) a = take_bit (Suc n) b"
  then have "take_bit n (take_bit (Suc n) a) = take_bit n (take_bit (Suc n) b)" by simp
  then have 1: "take_bit n a = take_bit n b" by (simp add: min_def)
  from e have "bit (take_bit (Suc n) a) n = bit (take_bit (Suc n) b) n" by simp
  then have "bit a n = bit b n" by (simp add: bit_take_bit_iff)
  with 1 show "take_bit n a = take_bit n b \<and> bit a n = bit b n" ..
next
  assume h: "take_bit n a = take_bit n b \<and> bit a n = bit b n"
  show "take_bit (Suc n) a = take_bit (Suc n) b"
  proof (rule bit_eqI)
    fix i
    from h have "bit (take_bit n a) i = bit (take_bit n b) i" by simp
    then have "i < n \<Longrightarrow> bit a i = bit b i" by (simp add: bit_take_bit_iff)
    with h show "bit (take_bit (Suc n) a) i = bit (take_bit (Suc n) b) i"
      by (cases "i = n") (auto simp: bit_take_bit_iff less_Suc_eq)
  qed
qed

lemma bit_test_iff:
  assumes "j < 64" and "2 ^ j dvd (st - cs)"
  shows "(st AND 2 ^ j = cs AND 2 ^ j) \<longleftrightarrow> 2 ^ Suc j dvd (st - (cs :: uint64_t))"
proof -
  from assms(2) have "take_bit j st = take_bit j cs" by (simp only: agree_iff_take_bit)
  then have "2 ^ Suc j dvd (st - cs) \<longleftrightarrow> bit st j = bit cs j"
    by (simp only: agree_iff_take_bit take_bit_Suc_eq_iff simp_thms)
  with assms(1) show ?thesis by (simp only: and_bit_eq_iff)
qed

lemma exp_Suc_not_dvd:
  assumes "j < 64" shows "\<not> 2 ^ Suc j dvd (2 ^ j :: uint64_t)"
proof
  assume "2 ^ Suc j dvd (2 ^ j :: uint64_t)"
  then have "take_bit (Suc j) (2 ^ j :: uint64_t) = 0" by (simp only: take_bit_eq_0_iff)
  then have "bit (take_bit (Suc j) (2 ^ j :: uint64_t)) j = bit (0 :: uint64_t) j" by simp
  with assms show False by (simp add: bit_take_bit_iff bit_exp_iff)
qed

lemma exp_Suc_dvd_mult_iff:
  assumes "j < 64"
  shows "2 ^ Suc j dvd 2 ^ j * (u :: uint64_t) \<longleftrightarrow> even u"
proof
  assume "even u"
  then obtain v where "u = 2 * v" ..
  then have "2 ^ j * u = 2 ^ Suc j * v" by simp
  then show "2 ^ Suc j dvd 2 ^ j * u" by simp
next
  assume d: "2 ^ Suc j dvd 2 ^ j * u"
  show "even u"
  proof (rule ccontr)
    assume "odd u"
    then obtain v where "u = 2 * v + 1" by (rule oddE)
    then have "2 ^ j * u = 2 ^ Suc j * v + 2 ^ j" by (simp add: algebra_simps)
    with d have "2 ^ Suc j dvd 2 ^ Suc j * v + (2 ^ j :: uint64_t)" by simp
    then have "2 ^ Suc j dvd (2 ^ j :: uint64_t)" by (simp only: dvd_add_right_iff dvd_triv_left)
    with exp_Suc_not_dvd [OF assms] show False ..
  qed
qed

subsection \<open>Period and reachability\<close>

lemma aff_funpow_form:
  assumes "lcg_form j m p"
  shows "\<exists>t. (aff m p ^^ q) x = x + 2 ^ j * of_nat q + 2 ^ Suc j * t"
proof (induction q)
  case 0
  show ?case by (intro exI [of _ 0]) simp
next
  case (Suc q)
  then obtain t where t: "(aff m p ^^ q) x = x + 2 ^ j * of_nat q + 2 ^ Suc j * t" ..
  from assms obtain a b where m: "m = 1 + 2 ^ (j + 2) * a" and p: "p = 2 ^ j + 2 ^ (j + 1) * b"
    unfolding lcg_form_def by blast
  define y where "y = x + 2 ^ j * of_nat q + 2 ^ Suc j * t"
  have "(aff m p ^^ Suc q) x = y * m + p" by (simp add: t y_def aff_def)
  also have "\<dots> = x + 2 ^ j * of_nat (Suc q) + 2 ^ Suc j * (t + 2 * a * y + b)"
    unfolding m p by (simp add: y_def algebra_simps)
  finally show ?case by blast
qed

lemma aff_funpow_agree:
  assumes "lcg_form j m p"
  shows "2 ^ j dvd ((aff m p ^^ q) x - x)"
    and "j < 64 \<Longrightarrow> 2 ^ Suc j dvd ((aff m p ^^ q) x - x) \<longleftrightarrow> even q"
proof -
  from aff_funpow_form [OF assms] obtain t
    where "(aff m p ^^ q) x = x + 2 ^ j * of_nat q + 2 ^ Suc j * t" ..
  then have d: "(aff m p ^^ q) x - x = 2 ^ j * (of_nat q + 2 * t)" by (simp add: algebra_simps)
  show "2 ^ j dvd ((aff m p ^^ q) x - x)" unfolding d by simp
  assume "j < 64"
  then show "2 ^ Suc j dvd ((aff m p ^^ q) x - x) \<longleftrightarrow> even q"
    unfolding d by (simp only: exp_Suc_dvd_mult_iff) simp
qed

lemma aff_period:
  assumes "lcg_form j m p" and "0 < q" and "q < 2 ^ (64 - j)"
  shows "(aff m p ^^ q) x \<noteq> x"
  using assms
proof (induction q arbitrary: j m p rule: less_induct)
  case (less q)
  have j: "j < 64"
  proof (rule ccontr)
    assume "\<not> j < 64"
    with less.prems show False by simp
  qed
  show ?case
  proof (cases "even q")
    case False
    with aff_funpow_agree(2) [OF less.prems(1) j, of q x]
    have "\<not> 2 ^ Suc j dvd ((aff m p ^^ q) x - x)" by simp
    then show ?thesis by auto
  next
    case True
    then obtain r where r: "q = 2 * r" ..
    with less.prems have "0 < r" "r < q" by simp_all
    moreover from less.prems(3) j have "r < 2 ^ (64 - Suc j)"
    proof -
      from j have "(2 :: nat) ^ (64 - j) = 2 * 2 ^ (64 - Suc j)"
        by (simp add: Suc_diff_Suc flip: power_Suc)
      with less.prems(3) r show ?thesis by simp
    qed
    ultimately have "(aff (m * m) ((m + 1) * p) ^^ r) x \<noteq> x"
      using less.IH [OF _ lcg_form_Suc [OF less.prems(1)]] by blast
    then show ?thesis unfolding aff_funpow_double r .
  qed
qed

lemma exp_64_eq_0: "(2 ^ 64 :: uint64_t) = 0"
  by simp

lemma aff_reaches:
  assumes "lcg_form j m p" and "j \<le> 64" and "2 ^ j dvd (st - cs)"
  shows "\<exists>q < 2 ^ (64 - j). st = (aff m p ^^ q) cs"
  using assms
proof (induction n \<equiv> "64 - j" arbitrary: j m p cs)
  case 0
  then have "j = 64" by simp
  with "0.prems"(3) have "(2 ^ 64 :: uint64_t) dvd (st - cs)" by (simp only:)
  then have "st = cs" by (simp only: exp_64_eq_0 dvd_0_left_iff) simp
  then show ?case by (intro exI [of _ 0]) simp
next
  case (Suc n)
  then have j: "j < 64" and n: "n = 64 - Suc j" by simp_all
  have pw: "(2 :: nat) ^ (64 - j) = 2 * 2 ^ (64 - Suc j)"
    using j by (simp add: Suc_diff_Suc flip: power_Suc)
  note f' = lcg_form_Suc [OF Suc.prems(1)]
  show ?case
  proof (cases "2 ^ Suc j dvd (st - cs)")
    case True
    from Suc.hyps(1) [OF n f' _ True] j
    obtain q where "q < 2 ^ (64 - Suc j)" "st = (aff (m * m) ((m + 1) * p) ^^ q) cs"
      by auto
    then have "2 * q < 2 ^ (64 - j)" "st = (aff m p ^^ (2 * q)) cs"
      by (simp_all add: pw aff_funpow_double)
    then show ?thesis by blast
  next
    case False
    from Suc.prems(3) obtain u where u: "st - cs = 2 ^ j * u" ..
    from False have "\<not> 2 ^ Suc j dvd 2 ^ j * u" unfolding u .
    with exp_Suc_dvd_mult_iff [OF j, of u] have "odd u" by blast
    then obtain v where v: "u = 2 * v + 1" by (rule oddE)
    from aff_funpow_form [OF Suc.prems(1), of 1 cs]
    obtain t where "aff m p cs = cs + 2 ^ j + 2 ^ Suc j * t" by auto
    then have "st - aff m p cs = 2 ^ Suc j * (v - t)"
      using u v by (simp add: algebra_simps)
    then have "2 ^ Suc j dvd (st - aff m p cs)" by simp
    from Suc.hyps(1) [OF n f' _ this] j
    obtain q where "q < 2 ^ (64 - Suc j)" "st = (aff (m * m) ((m + 1) * p) ^^ q) (aff m p cs)"
      by auto
    then have "Suc (2 * q) < 2 ^ (64 - j)" "st = (aff m p ^^ Suc (2 * q)) cs"
      by (simp_all add: pw aff_funpow_double funpow_swap1)
    then show ?thesis by blast
  qed
qed

subsection \<open>The difference loop\<close>

lemma or_exp_eq_add:
  assumes "take_bit j dist = dist"
  shows "dist OR 2 ^ j = dist + (2 ^ j :: uint64_t)"
proof -
  have "\<not> bit dist j"
  proof
    assume "bit dist j"
    then have "bit (take_bit j dist) j" by (simp only: assms)
    then show False by (simp add: bit_take_bit_iff)
  qed
  then have "\<not> bit dist n \<or> \<not> bit (2 ^ j :: uint64_t) n" for n
    by (auto simp: bit_exp_iff)
  then show ?thesis by (rule disjunctive_add [symmetric])
qed

lemma take_bit_Suc_or_exp:
  assumes "take_bit j dist = dist"
  shows "take_bit (Suc j) (dist OR 2 ^ j) = dist OR (2 ^ j :: uint64_t)"
    and "take_bit (Suc j) dist = dist"
proof -
  have *: "bit dist i \<Longrightarrow> i < j" for i
  proof -
    assume "bit dist i"
    then have "bit (take_bit j dist) i" by (simp only: assms)
    then show "i < j" by (simp add: bit_take_bit_iff)
  qed
  show "take_bit (Suc j) (dist OR 2 ^ j) = dist OR (2 ^ j :: uint64_t)"
    by (rule bit_eqI) (auto simp: bit_take_bit_iff bit_or_iff bit_exp_iff dest: *)
  show "take_bit (Suc j) dist = dist"
    by (rule bit_eqI) (auto simp: bit_take_bit_iff dest: *)
qed

lemma minus_loop_value:
  assumes "lcg_form j m p" and "q < 2 ^ (64 - j)" and "j \<le> 64" and "take_bit j dist = dist"
  shows "minus_loop ((aff m p ^^ q) cs) m p cs (2 ^ j) dist =
           Some (Inr (dist + 2 ^ j * of_nat q))"
  using assms
proof (induction q arbitrary: j m p cs dist rule: less_induct)
  case (less q)
  define st where "st = (aff m p ^^ q) cs"
  show ?case
  proof (cases "q = 0")
    case True
    then show ?thesis by (subst minus_loop.simps) simp
  next
    case False
    then have q: "0 < q" by simp
    have j: "j < 64"
    proof (rule ccontr)
      assume "\<not> j < 64"
      with less.prems q show False by simp
    qed
    have pw: "(2 :: nat) ^ (64 - j) = 2 * 2 ^ (64 - Suc j)"
      using j by (simp add: Suc_diff_Suc flip: power_Suc)
    note f' = lcg_form_Suc [OF less.prems(1)]
    have ne: "st \<noteq> cs"
      unfolding st_def using less.prems(1) q less.prems(2) by (rule aff_period)
    have test: "(st AND 2 ^ j = cs AND 2 ^ j) \<longleftrightarrow> even q"
      unfolding st_def
      using bit_test_iff [OF j aff_funpow_agree(1) [OF less.prems(1), of q cs]]
        aff_funpow_agree(2) [OF less.prems(1) j, of q cs] by simp
    show ?thesis
    proof (cases "even q")
      case True
      then obtain r where r: "q = 2 * r" ..
      with q less.prems(2) have rq: "r < q" and rb: "r < 2 ^ (64 - Suc j)"
        by (simp_all add: pw)
      have st': "st = (aff (m * m) ((m + 1) * p) ^^ r) cs"
        unfolding st_def r by (simp only: aff_funpow_double)
      from less.IH [OF rq f' rb _ take_bit_Suc_or_exp(2) [OF less.prems(4)], of cs] j
      have "minus_loop st (m * m) ((m + 1) * p) cs (2 ^ Suc j) dist =
              Some (Inr (dist + 2 ^ Suc j * of_nat r))"
        by (simp add: st')
      moreover have "minus_loop st m p cs (2 ^ j) dist =
          minus_loop st (m * m) ((m + 1) * p) cs (2 ^ Suc j) dist"
        using ne test True by (subst minus_loop.simps) (simp add: push_bit_eq_mult mult.commute)
      moreover have "dist + 2 ^ Suc j * of_nat r = dist + 2 ^ j * (of_nat q :: uint64_t)"
        by (simp add: r algebra_simps)
      ultimately have "minus_loop st m p cs (2 ^ j) dist = Some (Inr (dist + 2 ^ j * of_nat q))"
        by (simp only:)
      then show ?thesis by (simp only: st_def)
    next
      case False
      then obtain r where r: "q = Suc (2 * r)" by (auto elim: oddE)
      with q less.prems(2) have rq: "r < q" and rb: "r < 2 ^ (64 - Suc j)"
        by (simp_all add: pw)
      define cs' where "cs' = cs * m + p"
      have cs': "cs' = aff m p cs" by (simp add: cs'_def aff_def)
      have st2: "st = (aff m p ^^ (2 * r)) cs'"
        unfolding st_def r cs' by (simp only: funpow_swap1 funpow.simps o_apply)
      then have st': "st = (aff (m * m) ((m + 1) * p) ^^ r) cs'"
        by (simp only: aff_funpow_double)
      have check: "st AND 2 ^ j = cs' AND 2 ^ j"
        unfolding st2
        using bit_test_iff [OF j aff_funpow_agree(1) [OF less.prems(1), of "2 * r" cs']]
          aff_funpow_agree(2) [OF less.prems(1) j, of "2 * r" cs'] by simp
      from less.IH [OF rq f' rb _ take_bit_Suc_or_exp(1) [OF less.prems(4)], of cs'] j
      have "minus_loop st (m * m) ((m + 1) * p) cs' (2 ^ Suc j) (dist OR 2 ^ j) =
              Some (Inr ((dist OR 2 ^ j) + 2 ^ Suc j * of_nat r))"
        by (simp add: st')
      moreover have "minus_loop st m p cs (2 ^ j) dist =
          minus_loop st (m * m) ((m + 1) * p) cs' (2 ^ Suc j) (dist OR 2 ^ j)"
        using ne test False check
        by (subst minus_loop.simps) (simp add: push_bit_eq_mult cs'_def mult.commute)
      moreover have "(dist OR 2 ^ j) + 2 ^ Suc j * of_nat r = dist + 2 ^ j * (of_nat q :: uint64_t)"
        by (simp add: r or_exp_eq_add [OF less.prems(4)] algebra_simps)
      ultimately have "minus_loop st m p cs (2 ^ j) dist = Some (Inr (dist + 2 ^ j * of_nat q))"
        by (simp only:)
      then show ?thesis by (simp only: st_def)
    qed
  qed
qed

lemma state_Advance:
  "state (Advance r k) = (aff PCG32_MULT (inc_v r) ^^ unat k) (state r)"
  and inc_v_Advance: "inc_v (Advance r k) = inc_v r"
proof -
  obtain am ap where l: "Advance_loop PCG32_MULT (inc_v r) 1 0 k = (am, ap)"
    by (cases "Advance_loop PCG32_MULT (inc_v r) 1 0 k")
  from Advance_loop_aff [OF l, of "state r"]
  have "aff am ap (state r) = (aff PCG32_MULT (inc_v r) ^^ unat k) (state r)"
    by (simp add: aff_def)
  moreover have "state (Advance r k) = aff am ap (state r)"
    by (simp add: Advance_def l aff_def mult.commute)
  ultimately show "state (Advance r k) = (aff PCG32_MULT (inc_v r) ^^ unat k) (state r)"
    by (simp only:)
  show "inc_v (Advance r k) = inc_v r" by (simp add: Advance_def l)
qed

lemma lcg_pow_exists:
  assumes "odd c"
  shows "\<exists>m p. lcg_form j m p \<and> aff m p = aff PCG32_MULT c ^^ (2 ^ j)"
proof (induction j)
  case 0
  from lcg_form_0 [OF assms] show ?case by auto
next
  case (Suc j)
  then obtain m p where f: "lcg_form j m p" and e: "aff m p = aff PCG32_MULT c ^^ (2 ^ j)"
    by blast
  have "aff (m * m) ((m + 1) * p) = aff m p ^^ 2"
    using aff_funpow_double [where m = m and p = p and n = 1] by simp
  also have "\<dots> = aff PCG32_MULT c ^^ (2 ^ Suc j)"
    by (simp only: e funpow_mult power_Suc2)
  finally show ?case using lcg_form_Suc [OF f] by blast
qed

lemma lcg_full_cycle:
  assumes "odd c" shows "aff PCG32_MULT c ^^ (2 ^ 64) = id"
proof -
  from lcg_pow_exists [OF assms, of 64]
  obtain m p where f: "lcg_form 64 m p" and e: "aff m p = aff PCG32_MULT c ^^ (2 ^ 64)"
    by blast
  from f obtain a b where "m = 1 + 2 ^ (64 + 2) * a" and "p = 2 ^ 64 + 2 ^ (64 + 1) * b"
    unfolding lcg_form_def by blast
  moreover have "(2 ^ (64 + 2) :: uint64_t) = 0" and "(2 ^ (64 + 1) :: uint64_t) = 0"
    by simp_all
  ultimately have "m = 1" and "p = 0" by (simp_all only: exp_64_eq_0 mult_zero_left add_0_right)
  then have "aff m p = id" by (simp add: aff_def fun_eq_iff)
  with e show ?thesis by (simp only:)
qed

lemma lcg_funpow_mod:
  assumes "odd c"
  shows "(aff PCG32_MULT c ^^ n) x = (aff PCG32_MULT c ^^ (n mod 2 ^ 64)) x"
proof -
  define N :: nat where "N = 2 ^ 64"
  define f where "f = aff PCG32_MULT c"
  have cyc: "f ^^ N = id" unfolding f_def N_def by (rule lcg_full_cycle [OF assms])
  have "f ^^ n = f ^^ (n mod N + N * (n div N))" by simp
  also have "\<dots> = f ^^ (n mod N) \<circ> (f ^^ N) ^^ (n div N)"
    by (simp only: funpow_add funpow_mult)
  also have "\<dots> = f ^^ (n mod N)" by (simp only: cyc id_funpow comp_id)
  finally show ?thesis unfolding f_def N_def by (rule fun_cong)
qed

lemma RNG_minus_value:
  assumes "odd (inc_v a)" and "inc_v b = inc_v a" and "q < 2 ^ 64"
    and "state a = (aff PCG32_MULT (inc_v a) ^^ q) (state b)"
  shows "RNG_minus a b = Some (Inr (of_nat q))"
proof -
  from minus_loop_value [OF lcg_form_0 [OF assms(1)], of q 0 "state b"] assms(3)
  have "minus_loop ((aff PCG32_MULT (inc_v a) ^^ q) (state b)) PCG32_MULT (inc_v a) (state b) 1 0
          = Some (Inr (of_nat q))" by simp
  with assms(2,4) show ?thesis by (simp add: RNG_minus_def)
qed

lemma RNG_minus_total:
  assumes "odd (inc_v a)" and "inc_v b = inc_v a"
  shows "\<exists>q < 2 ^ 64. state a = (aff PCG32_MULT (inc_v a) ^^ q) (state b) \<and>
           RNG_minus a b = Some (Inr (of_nat q))"
proof -
  from aff_reaches [OF lcg_form_0 [OF assms(1)], of "state a" "state b"]
  obtain q where "q < 2 ^ 64" "state a = (aff PCG32_MULT (inc_v a) ^^ q) (state b)"
    by auto
  with RNG_minus_value [OF assms this] show ?thesis by blast
qed

lemma RNG_minus_sound:
  assumes "odd (inc_v a)" and "RNG_minus a b = Some (Inr d)"
  shows "inc_v b = inc_v a" and "state a = (aff PCG32_MULT (inc_v a) ^^ unat d) (state b)"
proof -
  from assms(2) show i: "inc_v b = inc_v a"
    by (auto simp: RNG_minus_def split: if_splits)
  from RNG_minus_total [OF assms(1) i] assms(2)
  obtain q where q: "q < 2 ^ 64" "state a = (aff PCG32_MULT (inc_v a) ^^ q) (state b)"
    "d = of_nat q" by auto
  from q(1) have "unat (of_nat q :: uint64_t) = q" by (simp add: unat_of_nat)
  with q show "state a = (aff PCG32_MULT (inc_v a) ^^ unat d) (state b)" by simp
qed

lemma unat_add_mod: "(unat k + unat k0) mod 2 ^ 64 = unat (k0 + k :: uint64_t)"
proof -
  have "unat (k0 + k) = (unat k0 + unat k) mod 2 ^ LENGTH(64)"
    by (rule unat_word_ariths(1))
  also have "LENGTH(64) = 64" by simp
  also have "unat k0 + unat k = unat k + unat k0" by (rule add.commute)
  finally show ?thesis by (rule sym)
qed

lemma RNG_minus_Advance:
  assumes "odd (inc_v a)" and "RNG_minus a b = Some (Inr k0)"
  shows "RNG_minus (Advance a k) b = Some (Inr (k0 + k))"
proof -
  note s = RNG_minus_sound [OF assms]
  let ?f = "aff PCG32_MULT (inc_v a)"
  have "state (Advance a k) = (?f ^^ (unat k + unat k0)) (state b)"
    by (simp add: state_Advance s(2) funpow_add)
  also have "\<dots> = (?f ^^ ((unat k + unat k0) mod 2 ^ 64)) (state b)"
    by (rule lcg_funpow_mod [OF assms(1)])
  also have "(unat k + unat k0) mod 2 ^ 64 = unat (k0 + k)"
    by (rule unat_add_mod)
  finally have "state (Advance a k) = (aff PCG32_MULT (inc_v (Advance a k)) ^^ unat (k0 + k)) (state b)"
    by (simp add: inc_v_Advance)
  moreover have "unat (k0 + k) < 2 ^ 64"
    using unsigned_less [of "k0 + k", where 'a = nat] by simp
  ultimately have "RNG_minus (Advance a k) b = Some (Inr (of_nat (unat (k0 + k))))"
    using assms(1) s(1) by (intro RNG_minus_value) (simp_all add: inc_v_Advance)
  then show ?thesis by simp
qed

lemma RNG_minus_self: "RNG_minus a a = Some (Inr 0)"
  by (simp add: RNG_minus_def) (subst minus_loop.simps, simp)




subsection \<open>The stream of a generator never changes\<close>

lemma inc_v_Uniform_uint32: "inc_v (snd (Uniform_uint32 r)) = inc_v r"
  by (simp add: Uniform_uint32_def Let_def)

lemma inc_v_Uniform_uint64: "inc_v (snd (Uniform_uint64 r)) = inc_v r"
  using inc_v_Uniform_uint32 [of r] inc_v_Uniform_uint32 [of "snd (Uniform_uint32 r)"]
  by (simp add: Uniform_uint64_def split_beta)

lemma inc_v_SetSequence: "inc_v (SetSequence r i s) = push_bit 1 i OR 1"
  by (simp add: SetSequence_def Let_def inc_v_Uniform_uint32)

lemma odd_shift_or_1: "odd (push_bit 1 (i :: uint64_t) OR 1)"
  by (simp add: even_or_iff)

lemma inc_v_Uniform_loop32:
  assumes "Uniform_loop32 t b r = Some y" shows "inc_v (snd y) = inc_v r"
  using assms
proof (induction rule: Uniform_loop32.raw_induct [rotated, consumes 1])
  case (1 f t b r y)
  obtain x r1 where u: "Uniform_uint32 r = (x, r1)" by (cases "Uniform_uint32 r")
  then have i: "inc_v r1 = inc_v r" using inc_v_Uniform_uint32 [of r] by simp
  show ?case
  proof (cases "t \<le> x")
    case True
    with "1"(2) u have "y = (x mod b, r1)" by simp
    with i show ?thesis by simp
  next
    case False
    with "1"(2) u have "f t b r1 = Some y" by simp
    then have "inc_v (snd y) = inc_v r1" by (rule "1"(1))
    with i show ?thesis by simp
  qed
qed

lemma inc_v_Uniform_loop64:
  assumes "Uniform_loop64 t b r = Some y" shows "inc_v (snd y) = inc_v r"
  using assms
proof (induction rule: Uniform_loop64.raw_induct [rotated, consumes 1])
  case (1 f t b r y)
  obtain x r1 where u: "Uniform_uint64 r = (x, r1)" by (cases "Uniform_uint64 r")
  then have i: "inc_v r1 = inc_v r" using inc_v_Uniform_uint64 [of r] by simp
  show ?case
  proof (cases "t \<le> x")
    case True
    with "1"(2) u have "y = (x mod b, r1)" by simp
    with i show ?thesis by simp
  next
    case False
    with "1"(2) u have "f t b r1 = Some y" by simp
    then have "inc_v (snd y) = inc_v r1" by (rule "1"(1))
    with i show ?thesis by simp
  qed
qed

lemma inc_v_Uniform_b32:
  "Uniform_b32 r b = Some (Inr (v, r')) \<Longrightarrow> inc_v r' = inc_v r"
  using inc_v_Uniform_loop32 [of "(NOT b + 1) mod b" b r "(v, r')"]
  by (auto simp: Uniform_b32_def split: if_splits)

lemma inc_v_Uniform_b64:
  "Uniform_b64 r b = Some (Inr (v, r')) \<Longrightarrow> inc_v r' = inc_v r"
  using inc_v_Uniform_loop64 [of "(NOT b + 1) mod b" b r "(v, r')"]
  by (auto simp: Uniform_b64_def split: if_splits)

lemma odd_default: "odd (inc_v RNG_default)"
  by (simp add: RNG_default_def PCG32_DEFAULT_STREAM_def)

lemma RNG_reachable_odd: "RNG_reachable x \<Longrightarrow> odd (inc_v x)"
proof (induction rule: RNG_reachable.induct)
  case reach_default
  show ?case by (rule odd_default)
next
  case (reach_ctor i s)
  show ?case by (simp only: RNG_ctor_def inc_v_SetSequence odd_shift_or_1 not_False_eq_True)
next
  case (reach_SetSequence r i s)
  show ?case by (simp only: inc_v_SetSequence odd_shift_or_1 not_False_eq_True)
next
  case (reach_Uniform_uint32 r)
  then show ?case by (simp add: inc_v_Uniform_uint32)
next
  case (reach_Uniform_uint64 r)
  then show ?case by (simp add: inc_v_Uniform_uint64)
next
  case (reach_Advance r k)
  then show ?case by (simp add: inc_v_Advance)
next
  case (reach_Uniform_b32 r b v r')
  then show ?case by (simp add: inc_v_Uniform_b32 [of r b v r'])
next
  case (reach_Uniform_b64 r c w r')
  then show ?case by (simp add: inc_v_Uniform_b64 [of r c w r'])
qed


lemma shift_drops_bit63: "push_bit 1 (i + 2 ^ 63 :: uint64_t) = push_bit 1 i"
proof -
  have "(2 :: uint64_t) * 2 ^ 63 = 2 ^ 64" by simp
  also have "\<dots> = 0" using word_pow_0 [where 'a = 64] by simp
  finally show ?thesis by (simp add: push_bit_eq_mult distrib_right)
qed

subsection \<open>Bounded draws\<close>

lemma Uniform_loop32_first:
  assumes "\<forall>i<n. raw32 r i < t" and "t \<le> raw32 r n"
  shows "Uniform_loop32 t b r = Some (raw32 r n mod b, after32 r (Suc n))"
  using assms
proof (induction n arbitrary: r)
  case 0
  then show ?case
    by (subst Uniform_loop32.simps) (simp add: raw32_def after32_def split_beta)
next
  case (Suc n)
  let ?r1 = "snd (Uniform_uint32 r)"
  have sh: "after32 r (Suc k) = after32 ?r1 k" for k
    by (simp only: after32_def funpow_Suc_right o_apply)
  then have rw: "raw32 r (Suc k) = raw32 ?r1 k" for k
    by (simp add: raw32_def)
  from Suc.prems(1) have "\<forall>i<n. raw32 ?r1 i < t" by (auto simp flip: rw)
  moreover from Suc.prems(2) have "t \<le> raw32 ?r1 n" by (simp add: rw)
  ultimately have "Uniform_loop32 t b ?r1 = Some (raw32 ?r1 n mod b, after32 ?r1 (Suc n))"
    by (rule Suc.IH)
  moreover from Suc.prems(1) have "\<not> t \<le> fst (Uniform_uint32 r)"
    by (auto simp: raw32_def after32_def not_le dest: spec [of _ 0])
  ultimately show ?case
    by (subst Uniform_loop32.simps) (simp add: split_beta rw sh)
qed

lemma Uniform_loop64_first:
  assumes "\<forall>i<n. raw64 r i < t" and "t \<le> raw64 r n"
  shows "Uniform_loop64 t b r = Some (raw64 r n mod b, after64 r (Suc n))"
  using assms
proof (induction n arbitrary: r)
  case 0
  then show ?case
    by (subst Uniform_loop64.simps) (simp add: raw64_def after64_def split_beta)
next
  case (Suc n)
  let ?r1 = "snd (Uniform_uint64 r)"
  have sh: "after64 r (Suc k) = after64 ?r1 k" for k
    by (simp only: after64_def funpow_Suc_right o_apply)
  then have rw: "raw64 r (Suc k) = raw64 ?r1 k" for k
    by (simp add: raw64_def)
  from Suc.prems(1) have "\<forall>i<n. raw64 ?r1 i < t" by (auto simp flip: rw)
  moreover from Suc.prems(2) have "t \<le> raw64 ?r1 n" by (simp add: rw)
  ultimately have "Uniform_loop64 t b ?r1 = Some (raw64 ?r1 n mod b, after64 ?r1 (Suc n))"
    by (rule Suc.IH)
  moreover from Suc.prems(1) have "\<not> t \<le> fst (Uniform_uint64 r)"
    by (auto simp: raw64_def after64_def not_le dest: spec [of _ 0])
  ultimately show ?case
    by (subst Uniform_loop64.simps) (simp add: split_beta rw sh)
qed

lemma first_accepted:
  fixes f :: "nat \<Rightarrow> 'a :: linorder"
  assumes "t \<le> f m"
  shows "\<exists>n. (\<forall>i<n. f i < t) \<and> t \<le> f n"
proof -
  define n where "n = (LEAST k. t \<le> f k)"
  have "t \<le> f n" unfolding n_def using assms by (rule LeastI)
  moreover have "f i < t" if "i < n" for i
    using not_less_Least [of i "\<lambda>k. t \<le> f k"] that by (simp add: n_def not_le)
  ultimately show ?thesis by blast
qed

lemma snd_Uniform_uint32:
  "snd (Uniform_uint32 g) = g\<lparr>state := aff PCG32_MULT (inc_v g) (state g)\<rparr>"
  by (simp add: Uniform_uint32_def Let_def aff_def)

lemma snd_Uniform_uint64:
  "snd (Uniform_uint64 g) =
     g\<lparr>state := aff PCG32_MULT (inc_v g) (aff PCG32_MULT (inc_v g) (state g))\<rparr>"
  by (simp add: Uniform_uint64_def split_beta snd_Uniform_uint32)

lemma state_after32:
  "after32 r n = r\<lparr>state := (aff PCG32_MULT (inc_v r) ^^ n) (state r)\<rparr>"
proof (induction n)
  case 0
  show ?case by (simp add: after32_def)
next
  case (Suc n)
  have "after32 r (Suc n) = snd (Uniform_uint32 (after32 r n))" by (simp add: after32_def)
  also have "\<dots> = r\<lparr>state := (aff PCG32_MULT (inc_v r) ^^ Suc n) (state r)\<rparr>"
    by (simp add: Suc snd_Uniform_uint32)
  finally show ?case .
qed

lemma state_after64:
  "after64 r n = r\<lparr>state := (aff PCG32_MULT (inc_v r) ^^ (2 * n)) (state r)\<rparr>"
proof (induction n)
  case 0
  show ?case by (simp add: after64_def)
next
  case (Suc n)
  have "after64 r (Suc n) = snd (Uniform_uint64 (after64 r n))" by (simp add: after64_def)
  also have "\<dots> = r\<lparr>state := (aff PCG32_MULT (inc_v r) ^^ (2 * Suc n)) (state r)\<rparr>"
    by (simp add: Suc snd_Uniform_uint64)
  finally show ?case .
qed

text \<open>A state whose 32-bit output has all bits set; its lowest bit plays no part.\<close>

lemma output_all_ones:
  "fst (Uniform_uint32 \<lparr>state = 0x07FFFE0000000000, inc_v = c\<rparr>) = 0xFFFFFFFF"
  "fst (Uniform_uint32 \<lparr>state = 0x07FFFE0000000001, inc_v = c\<rparr>) = 0xFFFFFFFF"
  by (simp_all add: Uniform_uint32_def Let_def)

lemma card_residue_below:
  fixes B :: nat
  assumes "v < B"
  shows "card {n. n < N \<and> n mod B = v} = N div B + (if v < N mod B then 1 else 0)"
proof (induction N)
  case 0
  show ?case by simp
next
  case (Suc N)
  have fin: "finite {n. n < N \<and> n mod B = v}" by simp
  have split: "{n. n < Suc N \<and> n mod B = v} =
      (if N mod B = v then insert N {n. n < N \<and> n mod B = v} else {n. n < N \<and> n mod B = v})"
    by (auto simp: less_Suc_eq)
  have "card {n. n < Suc N \<and> n mod B = v} =
      N div B + (if v < N mod B then 1 else 0) + (if N mod B = v then 1 else 0)"
    unfolding split using fin Suc.IH by simp
  also have "\<dots> = Suc N div B + (if v < Suc N mod B then 1 else 0)"
    using assms by (auto simp: mod_Suc div_Suc)
  finally show ?case .
qed

lemma card_residue_from:
  fixes B :: nat
  assumes "v < B" and "T = N mod B"
  shows "card {n. T \<le> n \<and> n < N \<and> n mod B = v} = N div B"
proof -
  have TB: "T < B" using assms by simp
  have TN: "T \<le> N" using assms(2) by simp
  have eq: "{n. T \<le> n \<and> n < N \<and> n mod B = v} =
      {n. n < N \<and> n mod B = v} - {n. n < T \<and> n mod B = v}"
    by auto
  have sub: "{n. n < T \<and> n mod B = v} \<subseteq> {n. n < N \<and> n mod B = v}"
    using TN by auto
  have "card {n. T \<le> n \<and> n < N \<and> n mod B = v} =
      card {n. n < N \<and> n mod B = v} - card {n. n < T \<and> n mod B = v}"
    unfolding eq by (rule card_Diff_subset) (simp_all add: sub)
  also have "\<dots> = (N div B + (if v < N mod B then 1 else 0)) -
      (T div B + (if v < T mod B then 1 else 0))"
    by (simp only: card_residue_below [OF assms(1)])
  also have "\<dots> = N div B" using TB assms(2) by simp
  finally show ?thesis .
qed

lemma unat_uminus:
  fixes b :: "'a :: len word"
  assumes "b \<noteq> 0"
  shows "unat (- b) = 2 ^ LENGTH('a) - unat b"
  by (metis (no_types, lifting) add_cancel_right_right add_diff_cancel_left
    assms diff_0 diff_is_0_eq diff_zero unat_sub_if' unsigned_eq_0_iff)

lemma unat_threshold:
  fixes b :: "'a :: len word"
  assumes "b \<noteq> 0"
  shows "unat ((NOT b + 1) mod b) = (2 ^ LENGTH('a) - unat b) mod unat b"
    and "unat ((NOT b + 1) mod b) = 2 ^ LENGTH('a) mod unat b"
proof -
  have "NOT b + 1 = - b" by (simp add: minus_eq_not_plus_1)
  then have "unat ((NOT b + 1) mod b) = unat (- b) mod unat b" by (simp add: unat_mod)
  also have "unat (- b) = 2 ^ LENGTH('a) - unat b"
    using assms by (rule unat_uminus)
  finally show 1: "unat ((NOT b + 1) mod b) = (2 ^ LENGTH('a) - unat b) mod unat b" .
  have "unat b \<le> 2 ^ LENGTH('a)" by (rule less_imp_le) (rule unsigned_less)
  then have "(2 ^ LENGTH('a) - unat b) mod unat b = 2 ^ LENGTH('a) mod unat b"
    by (metis le_mod_geq mod_mod_trivial mod_less_eq_dividend le_antisym mod_self diff_self_eq_0 mod_0 le_eq_less_or_eq)
  with 1 show "unat ((NOT b + 1) mod b) = 2 ^ LENGTH('a) mod unat b" by simp
qed

lemma word_residue_count:
  fixes b :: "'a :: len word"
  assumes "b \<noteq> 0" and "v < b"
  shows "card {x. (NOT b + 1) mod b \<le> x \<and> x mod b = v} = 2 ^ LENGTH('a) div unat b"
proof -
  let ?t = "(NOT b + 1) mod b"
  let ?S = "{x. ?t \<le> x \<and> x mod b = v}"
  let ?N = "{n. unat ?t \<le> n \<and> n < 2 ^ LENGTH('a) \<and> n mod unat b = unat v}"
  have "unat ` ?S = ?N"
  proof (intro set_eqI iffI)
    fix n assume "n \<in> unat ` ?S"
    then obtain x where x: "n = unat x" "?t \<le> x" "x mod b = v" by auto
    from x(3) have "unat x mod unat b = unat v" by (simp flip: unat_mod)
    moreover have "unat x < 2 ^ LENGTH('a)" by (rule unsigned_less)
    ultimately show "n \<in> ?N" using x(1,2)
      by (simp add: word_le_nat_alt)
  next
    fix n assume "n \<in> ?N"
    then have n: "unat ?t \<le> n" "n < 2 ^ LENGTH('a)" "n mod unat b = unat v" by simp_all
    from n(2) have u: "unat (of_nat n :: 'a word) = n" by (simp add: unat_of_nat)
    have "?t \<le> of_nat n" using n(1) u by (simp add: word_le_nat_alt)
    moreover have "(of_nat n :: 'a word) mod b = v"
      using n(3) u by (simp add: word_unat_eq_iff unat_mod)
    ultimately have "of_nat n \<in> ?S" by simp
    with u show "n \<in> unat ` ?S" by force
  qed
  moreover have "inj_on unat ?S" by (simp add: inj_on_def flip: word_unat_eq_iff)
  ultimately have "card ?S = card ?N" using card_image [of unat ?S] by simp
  also have "\<dots> = 2 ^ LENGTH('a) div unat b"
  proof (rule card_residue_from)
    show "unat v < unat b" using assms(2) by (simp add: word_less_nat_alt)
    show "unat ?t = 2 ^ LENGTH('a) mod unat b" by (rule unat_threshold(2) [OF assms(1)])
  qed
  finally show ?thesis .
qed

lemma raw32_hits_all_ones:
  assumes "odd (inc_v r)"
  shows "\<exists>m. raw32 r m = 0xFFFFFFFF"
proof -
  have "2 ^ 0 dvd (0x07FFFE0000000000 - state r)" by simp
  from aff_reaches [OF lcg_form_0 [OF assms] _ this]
  obtain q where q: "0x07FFFE0000000000 = (aff PCG32_MULT (inc_v r) ^^ q) (state r)" by auto
  have "after32 r q = \<lparr>state = 0x07FFFE0000000000, inc_v = inc_v r\<rparr>"
    by (simp add: state_after32 flip: q)
  then have "raw32 r q = 0xFFFFFFFF" by (simp only: raw32_def output_all_ones)
  then show ?thesis ..
qed

lemma raw64_hits_high:
  assumes "odd (inc_v r)"
  shows "\<exists>m. 0xFFFFFFFF00000000 \<le> raw64 r m"
proof -
  define T :: uint64_t
    where "T = (if even (state r) then 0x07FFFE0000000000 else 0x07FFFE0000000001)"
  have out: "fst (Uniform_uint32 \<lparr>state = T, inc_v = inc_v r\<rparr>) = 0xFFFFFFFF"
    by (simp only: T_def output_all_ones if_distrib [of "\<lambda>s. fst (Uniform_uint32 \<lparr>state = s, inc_v = inc_v r\<rparr>)"] if_cancel)
  have "even (T - state r)" by (simp add: T_def)
  then have d: "2 ^ Suc 0 dvd (T - state r)" by simp
  note f1 = lcg_form_Suc [OF lcg_form_0 [OF assms]]
  from aff_reaches [OF f1 _ d]
  obtain q where "T = (aff (PCG32_MULT * PCG32_MULT) ((PCG32_MULT + 1) * inc_v r) ^^ q) (state r)"
    by auto
  then have q: "T = (aff PCG32_MULT (inc_v r) ^^ (2 * q)) (state r)"
    by (simp only: aff_funpow_double)
  have a: "after64 r q = \<lparr>state = T, inc_v = inc_v r\<rparr>"
    by (simp add: state_after64 flip: q)
  have "raw64 r q = push_bit 32 (ucast (0xFFFFFFFF :: uint32_t)) OR
      ucast (fst (Uniform_uint32 (snd (Uniform_uint32 \<lparr>state = T, inc_v = inc_v r\<rparr>))))"
    by (simp add: raw64_def a Uniform_uint64_def split_beta out)
  moreover have "push_bit 32 (ucast (0xFFFFFFFF :: uint32_t)) = (0xFFFFFFFF00000000 :: uint64_t)"
    by simp
  ultimately have "0xFFFFFFFF00000000 \<le> raw64 r q" by (simp only: le_word_or2)
  then show ?thesis ..
qed

lemma threshold64_small:
  fixes b :: uint64_t
  assumes "b \<noteq> 0"
  shows "(NOT b + 1) mod b \<le> 0xFFFFFFFF00000000"
proof -
  let ?t = "(NOT b + 1) mod b"
  have B: "0 < unat b" "unat b < 2 ^ 64"
    using assms unsigned_less [of b] by (simp_all add: unat_gt_0)
  have t: "unat ?t = (2 ^ 64 - unat b) mod unat b"
    using unat_threshold(1) [OF assms] by simp
  have "unat ?t < unat b" unfolding t using B(1) by simp
  moreover have "unat ?t \<le> 2 ^ 64 - unat b" unfolding t by (rule mod_less_eq_dividend)
  ultimately have "unat ?t < 2 ^ 63" using B(2) by simp
  then show ?thesis by (simp add: word_le_nat_alt)
qed

lemma Uniform_b32_returns:
  assumes "b \<noteq> 0" and "odd (inc_v r)"
  shows "\<exists>n. (\<forall>i<n. raw32 r i < (NOT b + 1) mod b) \<and> (NOT b + 1) mod b \<le> raw32 r n \<and>
           Uniform_b32 r b = Some (Inr (raw32 r n mod b, after32 r (Suc n))) \<and>
           raw32 r n mod b < b"
proof -
  let ?t = "(NOT b + 1) mod b"
  from raw32_hits_all_ones [OF assms(2)] obtain m where m: "raw32 r m = 0xFFFFFFFF" ..
  have e: "(0xFFFFFFFF :: uint32_t) = - 1" by simp
  have "?t \<le> raw32 r m" unfolding m e by simp
  from first_accepted [of ?t "raw32 r", OF this]
  obtain n where n: "\<forall>i<n. raw32 r i < ?t" "?t \<le> raw32 r n" by blast
  from Uniform_loop32_first [OF n, of b] assms(1)
  have "Uniform_b32 r b = Some (Inr (raw32 r n mod b, after32 r (Suc n)))"
    by (simp add: Uniform_b32_def)
  moreover from assms(1) have "raw32 r n mod b < b"
    by (simp add: word_mod_less_divisor word_greater_zero_iff)
  ultimately show ?thesis using n by blast
qed

lemma Uniform_b64_returns:
  assumes "b \<noteq> 0" and "odd (inc_v r)"
  shows "\<exists>n. (\<forall>i<n. raw64 r i < (NOT b + 1) mod b) \<and> (NOT b + 1) mod b \<le> raw64 r n \<and>
           Uniform_b64 r b = Some (Inr (raw64 r n mod b, after64 r (Suc n))) \<and>
           raw64 r n mod b < b"
proof -
  let ?t = "(NOT b + 1) mod b"
  from raw64_hits_high [OF assms(2)] obtain m where "0xFFFFFFFF00000000 \<le> raw64 r m" ..
  with threshold64_small [OF assms(1)] have "?t \<le> raw64 r m" by (rule order_trans)
  from first_accepted [of ?t "raw64 r", OF this]
  obtain n where n: "\<forall>i<n. raw64 r i < ?t" "?t \<le> raw64 r n" by blast
  from Uniform_loop64_first [OF n, of b] assms(1)
  have "Uniform_b64 r b = Some (Inr (raw64 r n mod b, after64 r (Suc n)))"
    by (simp add: Uniform_b64_def)
  moreover from assms(1) have "raw64 r n mod b < b"
    by (simp add: word_mod_less_divisor word_greater_zero_iff)
  ultimately show ?thesis using n by blast
qed

section \<open>Sample counts of the max-min-distance sampler\<close>

lemma floor_log2_ge: "2 ^ n \<le> v \<Longrightarrow> n \<le> floor_log2 v"
proof (induction n arbitrary: v)
  case 0
  show ?case by simp
next
  case (Suc n)
  then have "2 ^ n \<le> v div 2" by simp
  then have "n \<le> floor_log2 (v div 2)" by (rule Suc.IH)
  moreover have "\<not> v < 2"
  proof -
    from Suc.prems have "2 * 2 ^ n \<le> v" by simp
    moreover have "(1 :: nat) \<le> 2 ^ n" by simp
    ultimately show ?thesis by linarith
  qed
  ultimately show ?case by (subst floor_log2.simps) simp
qed

lemma Log2Int_ge: "int nC \<le> Log2Int (2 ^ nC + int k)"
proof -
  have "nat (2 ^ nC + int k) = 2 ^ nC + k" by (simp add: nat_add_distrib nat_power_eq)
  then show ?thesis using floor_log2_ge [of nC "2 ^ nC + k"] by (simp add: Log2Int_def)
qed



lemmas floor_log2_numeral = floor_log2.simps [of "numeral n" for n] floor_log2.simps [of 1]
  floor_log2.simps [of "Suc 0"] floor_log2.simps [of 0]

section \<open>Pixel changes\<close>

lemma calls_StartSequences:
  "calls (StartSequences vs ts) = calls ts + pixel_changes (lastPixel ts) vs"
proof (induction vs arbitrary: ts)
  case Nil
  show ?case by simp
next
  case (Cons v vs)
  obtain p i where v: "v = (p, i)" by (cases v)
  show ?case
    by (simp add: v Cons.IH StartSequence_def GeneratePixelSamples_def)
qed


section \<open>Bit reversal and generator matrices\<close>

lemma ReverseBits32_xor:
  "ReverseBits32 (v XOR c) = ReverseBits32 v XOR ReverseBits32 c"
  unfolding ReverseBits32_def by (rule bit_eqI) (simp add: bit_word_reverse_iff bit_xor_iff)

lemma ReverseBits32_0: "ReverseBits32 0 = 0"
  unfolding ReverseBits32_def by (rule bit_eqI) (simp add: bit_word_reverse_iff)

lemma fold_reverse:
  assumes "\<forall>i \<in> set is. i < length C"
  shows "ReverseBits32 (fold (\<lambda>i v. if bit a i then v XOR C ! i else v) is v) =
         fold (\<lambda>i v. if bit a i then v XOR map ReverseBits32 C ! i else v) is (ReverseBits32 v)"
  using assms by (induction "is" arbitrary: v) (simp_all add: ReverseBits32_xor)

lemma fold_identity:
  "n \<le> 32 \<Longrightarrow>
   fold (\<lambda>i v. if bit a i then v XOR identity_matrix ! i else v) [0..<n] 0 = take_bit n a"
proof (induction n)
  case 0
  show ?case by simp
next
  case (Suc n)
  then have n: "n < 32" by simp
  then have c: "identity_matrix ! n = 2 ^ n" by (simp add: identity_matrix_def)
  have "take_bit n a XOR (if bit a n then 2 ^ n else 0) = take_bit (Suc n) a"
    by (rule bit_eqI) (auto simp: bit_xor_iff bit_take_bit_iff bit_exp_iff less_Suc_eq)
  with Suc c n show ?case by (simp split: if_splits)
qed


section \<open>Invariants of the buffer cache\<close>

lemma cache_inv_init: "cache_inv BufferCache_init"
  by (simp add: cache_inv_def BufferCache_init_def)

lemma LookupOrAdd_inv:
  assumes "cache_inv bc" and "LookupOrAdd H s d buf bc = Inr (p, bc1)"
  shows "cache_inv bc1" and "cache_extends bc bc1"
    and "cache bc1 (BufferId_of H s buf) = Some p"
    and "d \<Longrightarrow> store bc1 p = Some buf"
proof -
  show "cache_inv bc1"
    using assms
    by (auto simp: LookupOrAdd_def Let_def cache_inv_def split: option.splits if_splits)
       (fastforce+)
  show "cache_extends bc bc1"
    using assms
    by (auto simp: LookupOrAdd_def Let_def cache_inv_def cache_extends_def
             split: option.splits if_splits)
       (metis less_irrefl_nat)+
  show "cache bc1 (BufferId_of H s buf) = Some p"
    using assms(2)
    by (auto simp: LookupOrAdd_def Let_def split: option.splits if_splits)
  show "store bc1 p = Some buf" if d
    using assms(2) that
    by (auto simp: LookupOrAdd_def Let_def split: option.splits if_splits)
qed

lemma cache_extends_refl: "cache_extends bc bc"
  by (simp add: cache_extends_def)

lemma cache_extends_trans:
  "cache_extends a b \<Longrightarrow> cache_extends b c \<Longrightarrow> cache_extends a c"
  unfolding cache_extends_def by metis

lemma LookupOrAdds_inv:
  assumes "cache_inv bc" and "LookupOrAdds H s d bufs bc = Inr (ps, bc')"
  shows "cache_inv bc' \<and> cache_extends bc bc'"
  using assms
proof (induction bufs arbitrary: bc ps)
  case Nil
  then show ?case by (simp add: cache_extends_refl)
next
  case (Cons buf bufs)
  from Cons.prems(2) obtain p bc1 ps1
    where 1: "LookupOrAdd H s d buf bc = Inr (p, bc1)"
      and 2: "LookupOrAdds H s d bufs bc1 = Inr (ps1, bc')"
    by (auto split: sum.splits prod.splits)
  from LookupOrAdd_inv(1,2) [OF Cons.prems(1) 1] Cons.IH [OF _ 2]
  show ?case by (blast intro: cache_extends_trans)
qed

lemma hash_collision_exists:
  fixes H :: "8 word list \<Rightarrow> uint64_t"
  shows "\<exists>b1 b2. b1 \<noteq> b2 \<and> length b1 = length b2 \<and> H b1 = H b2"
proof -
  define A :: "8 word list set" where "A = {xs. set xs \<subseteq> UNIV \<and> length xs = 9}"
  have fin: "finite A" unfolding A_def by (rule finite_lists_length_eq) simp
  have "card A = card (UNIV :: 8 word set) ^ 9"
    unfolding A_def by (rule card_lists_length_eq) simp
  then have cA: "card A = 2 ^ 72" by (simp add: card_word)
  have "card (H ` A) \<le> card (UNIV :: uint64_t set)" by (rule card_mono) simp_all
  also have "\<dots> = 2 ^ 64" by (simp add: card_word)
  also have "\<dots> < card A" unfolding cA by simp
  finally have "\<not> inj_on H A" by (rule pigeonhole)
  then obtain b1 b2 where "b1 \<in> A" "b2 \<in> A" "H b1 = H b2" "b1 \<noteq> b2"
    unfolding inj_on_def by blast
  then have "b1 \<noteq> b2 \<and> length b1 = length b2 \<and> H b1 = H b2" unfolding A_def by simp
  then show ?thesis by (intro exI)
qed


section \<open>Claims\<close>

text \<open>C2: on a stream (\<open>inc\<close> odd, as it is in every generator the class
  can build), \<^verbatim>\<open>Advance\<close> and \<^verbatim>\<open>operator-\<close> are inverse to each other.
  After \<^verbatim>\<open>a.Advance(k)\<close> the difference to a copy of the old \<open>a\<close> is \<open>k\<close>; if
  \<open>a - b\<close> was \<open>k0\<close> before, it is \<open>k0 + k\<close> afterwards (in the 64-bit arithmetic
  of \<^verbatim>\<open>int64_t\<close>); advancing \<open>b\<close> by the difference \<open>a - b\<close> gives \<open>a\<close>; and the
  difference of two generators of one stream always returns, with no \<^verbatim>\<open>CHECK\<close>
  failing.\<close>

theorem Advance_minus_inverse:
  assumes "odd (inc_v a)"
  shows "RNG_minus (Advance a k) a = Some (Inr k) \<and>
         (\<forall>b k0. RNG_minus a b = Some (Inr k0) \<longrightarrow>
                  RNG_minus (Advance a k) b = Some (Inr (k0 + k))) \<and>
         (\<forall>b d. RNG_minus a b = Some (Inr d) \<longrightarrow> Advance b d = a) \<and>
         (\<forall>b. inc_v b = inc_v a \<longrightarrow> (\<exists>d. RNG_minus a b = Some (Inr d)))"
proof (intro conjI allI impI)
  from RNG_minus_Advance [OF assms RNG_minus_self, of k]
  show "RNG_minus (Advance a k) a = Some (Inr k)" by simp
next
  fix b :: RNG and k0 assume "RNG_minus a b = Some (Inr k0)"
  with assms show "RNG_minus (Advance a k) b = Some (Inr (k0 + k))"
    by (rule RNG_minus_Advance)
next
  fix b :: RNG and d assume m: "RNG_minus a b = Some (Inr d)"
  note s = RNG_minus_sound [OF assms m]
  have "state (Advance b d) = state a" by (simp add: state_Advance s)
  moreover have "inc_v (Advance b d) = inc_v a" by (simp add: inc_v_Advance s)
  ultimately show "Advance b d = a" by simp
next
  fix b :: RNG assume "inc_v b = inc_v a"
  from RNG_minus_total [OF assms this] show "\<exists>d. RNG_minus a b = Some (Inr d)" by blast
qed

theorem Advance_minus_inverse_witness:
  "odd (inc_v RNG_default) \<and>
   RNG_minus (Advance RNG_default 10000) RNG_default = Some (Inr 10000) \<and>
   RNG_minus (Advance (Advance RNG_default 7) 5) RNG_default = Some (Inr 12)"
proof -
  have o: "odd (inc_v RNG_default)" by (simp add: RNG_default_def PCG32_DEFAULT_STREAM_def)
  have o7: "odd (inc_v (Advance RNG_default 7))" using o by (simp add: inc_v_Advance)
  from Advance_minus_inverse [OF o, of 7]
  have "RNG_minus (Advance RNG_default 7) RNG_default = Some (Inr 7)" by blast
  with Advance_minus_inverse [OF o7, of 5]
  have "RNG_minus (Advance (Advance RNG_default 7) 5) RNG_default = Some (Inr (7 + 5))"
    by blast
  with o Advance_minus_inverse [OF o, of 10000] show ?thesis by simp
qed

text \<open>C10: the generators constructed as \<^verbatim>\<open>RNG(i, s)\<close> and
  \<^verbatim>\<open>RNG(i + 2^63, s)\<close> have the same \<open>state\<close> and the same \<open>inc\<close>, since the
  shift \<^verbatim>\<open>sequenceIndex << 1\<close> drops bit 63 of the index; being equal, they
  give the same draws ever after.\<close>

theorem RNG_ctor_bit63_alias:
  "RNG_ctor (i + 2 ^ 63) s = RNG_ctor i s"
  by (simp only: RNG_ctor_def SetSequence_def shift_drops_bit63)

text \<open>C8: the field \<open>inc\<close> is always odd. It is odd in the default generator and after
  \<^verbatim>\<open>SetSequence\<close>, which sets it to \<^verbatim>\<open>(sequenceIndex << 1) | 1\<close>; \<^verbatim>\<open>Advance\<close>
  and every draw leave it as it is (\<^verbatim>\<open>operator-\<close> is \<^verbatim>\<open>const\<close>); so it is odd in
  every generator that the constructors and methods can produce.\<close>

theorem inc_always_odd:
  "odd (inc_v RNG_default) \<and>
   inc_v (SetSequence r sequenceIndex seed) = push_bit 1 sequenceIndex OR 1 \<and>
   odd (inc_v (SetSequence r sequenceIndex seed)) \<and>
   odd (inc_v (RNG_ctor sequenceIndex seed)) \<and>
   inc_v (Advance r idelta) = inc_v r \<and>
   inc_v (snd (Uniform_uint32 r)) = inc_v r \<and>
   inc_v (snd (Uniform_uint64 r)) = inc_v r \<and>
   (\<forall>b v r'. Uniform_b32 r b = Some (Inr (v, r')) \<longrightarrow> inc_v r' = inc_v r) \<and>
   (\<forall>b v r'. Uniform_b64 r b = Some (Inr (v, r')) \<longrightarrow> inc_v r' = inc_v r) \<and>
   (\<forall>x. RNG_reachable x \<longrightarrow> odd (inc_v x))"
  by (simp only: odd_default inc_v_SetSequence odd_shift_or_1 RNG_ctor_def inc_v_Advance
        inc_v_Uniform_uint32 inc_v_Uniform_uint64 simp_thms)
     (auto dest: inc_v_Uniform_b32 inc_v_Uniform_b64 RNG_reachable_odd)

theorem inc_always_odd_witness:
  "RNG_reachable (Advance (snd (Uniform_uint32 (SetSequence RNG_default 7 3))) 5) \<and>
   odd (inc_v (Advance (snd (Uniform_uint32 (SetSequence RNG_default 7 3))) 5)) \<and>
   inc_v (Advance (snd (Uniform_uint32 (SetSequence RNG_default 7 3))) 5) = 15"
proof -
  let ?r = "Advance (snd (Uniform_uint32 (SetSequence RNG_default 7 3))) 5"
  have r: "RNG_reachable ?r"
    by (intro reach_Advance reach_Uniform_uint32 reach_SetSequence reach_default)
  from inc_always_odd [of "snd (Uniform_uint32 (SetSequence RNG_default 7 3))" 0 0 5]
  have a: "inc_v ?r = inc_v (snd (Uniform_uint32 (SetSequence RNG_default 7 3)))"
    and o: "\<forall>x. RNG_reachable x \<longrightarrow> odd (inc_v x)" by blast+
  from inc_always_odd [of "SetSequence RNG_default 7 3" 0 0 0]
  have b: "inc_v (snd (Uniform_uint32 (SetSequence RNG_default 7 3))) =
             inc_v (SetSequence RNG_default 7 3)" by blast
  from inc_always_odd [of RNG_default 7 3 0]
  have c: "inc_v (SetSequence RNG_default 7 3) = push_bit 1 7 OR 1" by blast
  have "(push_bit 1 7 OR 1 :: uint64_t) = 15" by simp
  with a b c have "inc_v ?r = 15" by (simp only:)
  with r o show ?thesis by blast
qed

text \<open>C6: \<^verbatim>\<open>GeneratePixelSamples\<close> runs exactly once for each call of
  \<^verbatim>\<open>StartSequence\<close> whose pixel differs from the pixel of the call before (the first
  call of a fresh sampler included), and never when only the sample index changes. So
  the number of runs over a sequence of calls is the number of pixel changes in it, and
  the five visits of the test give 3.\<close>

theorem GeneratePixelSamples_once_per_pixel_change:
  "calls (StartSequence p i ts) = calls ts + (if lastPixel ts = Some p then 0 else 1) \<and>
   lastPixel (StartSequence p i ts) = Some p \<and>
   calls (StartSequence p j (StartSequence p i ts)) = calls (StartSequence p i ts) \<and>
   calls (StartSequences vs ts) = calls ts + pixel_changes (lastPixel ts) vs \<and>
   calls (StartSequences [((0, 0), 0), ((0, 0), 1), ((0, 0), 10), ((1, 0), 4), ((0, 0), 11)]
            TestSampler) = 3"
proof (intro conjI)
  show "calls (StartSequences vs ts) = calls ts + pixel_changes (lastPixel ts) vs"
    by (rule calls_StartSequences)
  show "calls (StartSequences [((0, 0), 0), ((0, 0), 1), ((0, 0), 10), ((1, 0), 4), ((0, 0), 11)]
            TestSampler) = 3"
    by (simp only: calls_StartSequences) (simp add: TestSampler_def)
qed (simp_all add: StartSequence_def GeneratePixelSamples_def)

theorem GeneratePixelSamples_once_per_pixel_change_witness:
  "calls (StartSequence (1, 0) 4 (StartSequence (0, 0) 10 TestSampler)) = 2 \<and>
   calls (StartSequence (0, 0) 4 (StartSequence (0, 0) 10 TestSampler)) = 1"
  using GeneratePixelSamples_once_per_pixel_change [of "(1, 0)" 4 "StartSequence (0, 0) 10 TestSampler" 0 "[]"]
    GeneratePixelSamples_once_per_pixel_change [of "(0, 0)" 10 TestSampler 4 "[]"]
  by (simp add: TestSampler_def)

text \<open>C7 (the code departs from the claim): a request beyond the table does not
  complete. With \<open>nC\<close> rows in \<^verbatim>\<open>CMaxMinDist\<close>, every request of \<open>2 ^ nC\<close> samples
  or more prints the warning, hands a clamped and rounded count to the base class, and
  then fails the \<^verbatim>\<open>CHECK\<close> on \<^verbatim>\<open>Cindex\<close> in the constructor's body, which takes the
  logarithm of the count as requested. With 17 rows and 131072 samples, both warnings are
  printed before the \<^verbatim>\<open>CHECK\<close> fails.\<close>

theorem MaxMinDistSampler_oversize_fatal:
  "snd (MaxMinDistSampler_ctor nC (2 ^ nC + int k) nd) = Inl CHECK_Cindex \<and>
   MaxMinDistSampler_ctor 17 131072 4 =
     ([No_more_than_supported 131071, Rounded_up_to 131072], Inl CHECK_Cindex)"
proof
  show "snd (MaxMinDistSampler_ctor nC (2 ^ nC + int k) nd) = Inl CHECK_Cindex"
    using Log2Int_ge [of nC k] by (simp add: MaxMinDistSampler_ctor_def split_beta Let_def)
  show "MaxMinDistSampler_ctor 17 131072 4 =
     ([No_more_than_supported 131071, Rounded_up_to 131072], Inl CHECK_Cindex)"
    by (simp add: MaxMinDistSampler_ctor_def round_spp_def Log2Int_def IsPowerOf2_def
          RoundUpPow2_def Let_def floor_log2_numeral)
qed

text \<open>C9: with the identity matrix, \<^verbatim>\<open>MultiplyGenerator(C, a)\<close> is \<open>a\<close>; and for
  every matrix \<open>C\<close> of 32 columns and every index \<open>a\<close>, reversing the bits of
  \<^verbatim>\<open>MultiplyGenerator(C, a)\<close> gives \<^verbatim>\<open>MultiplyGenerator(Crev, a)\<close>, where \<open>Crev\<close>
  holds the bit-reversed columns of \<open>C\<close>.\<close>

theorem MultiplyGenerator_identity_and_reverse:
  "MultiplyGenerator identity_matrix a = a \<and>
   (length C = 32 \<longrightarrow>
      ReverseBits32 (MultiplyGenerator C a) = MultiplyGenerator (map ReverseBits32 C) a)"
proof (intro conjI impI)
  have "take_bit 32 a = a" by (rule bit_eqI) (auto simp: bit_take_bit_iff dest: bit_imp_le_length)
  moreover have "MultiplyGenerator identity_matrix a = take_bit 32 a"
    unfolding MultiplyGenerator_def by (rule fold_identity) simp
  ultimately show "MultiplyGenerator identity_matrix a = a" by (simp only:)
next
  assume "length C = 32"
  then have "\<forall>i \<in> set [0..<32]. i < length C" by simp
  from fold_reverse [OF this, of a 0]
  show "ReverseBits32 (MultiplyGenerator C a) = MultiplyGenerator (map ReverseBits32 C) a"
    unfolding MultiplyGenerator_def ReverseBits32_0 .
qed

theorem MultiplyGenerator_identity_and_reverse_witness:
  "length (replicate 32 (5 :: uint32_t)) = 32 \<and>
   ReverseBits32 (MultiplyGenerator (replicate 32 5) 3) =
     MultiplyGenerator (map ReverseBits32 (replicate 32 5)) 3"
  using MultiplyGenerator_identity_and_reverse [of 3 "replicate 32 5"] by simp

text \<open>C4 (amended): on a cache built from the empty one by calls of
  \<^verbatim>\<open>LookupOrAdd\<close>, let a call with buffer \<open>buf\<close> return \<open>p\<close>, and let any further
  calls follow. Then a call with the same content returns \<open>p\<close> again, increments the hit
  counter and stores nothing; a call with a different \<^verbatim>\<open>BufferId\<close> (hash or size)
  returns a pointer other than \<open>p\<close>; and a call with different content but the same
  \<^verbatim>\<open>BufferId\<close> fails the \<^verbatim>\<open>DCHECK\<close> in a debug build, and in a release build is a
  hit that returns \<open>p\<close>.\<close>

theorem BufferCache_dedup:
  assumes "LookupOrAdds H s d bufs0 BufferCache_init = Inr (ps0, bc0)"
    and "LookupOrAdd H s d buf bc0 = Inr (p, bc1)"
    and "LookupOrAdds H s d bufs1 bc1 = Inr (ps1, bc2)"
  shows "(\<exists>bc3. LookupOrAdd H s d buf bc2 = Inr (p, bc3) \<and>
            nBufferCacheHits bc3 = nBufferCacheHits bc2 + 1 \<and>
            cache bc3 = cache bc2 \<and> store bc3 = store bc2) \<and>
         (\<forall>buf' p' bc3. BufferId_of H s buf' \<noteq> BufferId_of H s buf \<longrightarrow>
            LookupOrAdd H s d buf' bc2 = Inr (p', bc3) \<longrightarrow> p' \<noteq> p) \<and>
         (\<forall>buf'. buf' \<noteq> buf \<and> BufferId_of H s buf' = BufferId_of H s buf \<longrightarrow>
            (if d then LookupOrAdd H s d buf' bc2 = Inl DCHECK_memcmp
             else \<exists>bc3. LookupOrAdd H s d buf' bc2 = Inr (p, bc3) \<and>
                        nBufferCacheHits bc3 = nBufferCacheHits bc2 + 1))"
proof -
  from LookupOrAdds_inv [OF cache_inv_init assms(1)] have i0: "cache_inv bc0" ..
  note f = LookupOrAdd_inv [OF i0 assms(2)]
  from LookupOrAdds_inv [OF f(1) assms(3)]
  have i2: "cache_inv bc2" and e: "cache_extends bc1 bc2" by blast+
  from e f(3) have c2: "cache bc2 (BufferId_of H s buf) = Some p"
    and s2: "store bc2 p = store bc1 p"
    by (auto simp: cache_extends_def)
  have st: "d \<Longrightarrow> store bc2 p = Some buf" using f(4) s2 by simp
  have 1: "\<exists>bc3. LookupOrAdd H s d buf bc2 = Inr (p, bc3) \<and>
            nBufferCacheHits bc3 = nBufferCacheHits bc2 + 1 \<and>
            cache bc3 = cache bc2 \<and> store bc3 = store bc2"
    using c2 st by (cases d) (simp_all add: LookupOrAdd_def Let_def)
  have 2: "p' \<noteq> p"
    if "BufferId_of H s buf' \<noteq> BufferId_of H s buf"
      and "LookupOrAdd H s d buf' bc2 = Inr (p', bc3)" for buf' p' bc3
  proof (cases "cache bc2 (BufferId_of H s buf')")
    case None
    with that(2) have "p' = next_free bc2" by (auto simp: LookupOrAdd_def Let_def)
    moreover from i2 c2 have "p < next_free bc2" by (auto simp: cache_inv_def)
    ultimately show ?thesis by simp
  next
    case (Some q)
    with that(2) have "p' = q"
      by (auto simp: LookupOrAdd_def Let_def split: if_splits)
    with Some i2 c2 that(1) show ?thesis unfolding cache_inv_def by metis
  qed
  have 3: "if d then LookupOrAdd H s d buf' bc2 = Inl DCHECK_memcmp
           else \<exists>bc3. LookupOrAdd H s d buf' bc2 = Inr (p, bc3) \<and>
                      nBufferCacheHits bc3 = nBufferCacheHits bc2 + 1"
    if "buf' \<noteq> buf" and "BufferId_of H s buf' = BufferId_of H s buf" for buf'
    using c2 st that by (cases d) (simp_all add: LookupOrAdd_def Let_def)
  show ?thesis
  proof (intro conjI allI impI)
    show "\<exists>bc3. LookupOrAdd H s d buf bc2 = Inr (p, bc3) \<and>
            nBufferCacheHits bc3 = nBufferCacheHits bc2 + 1 \<and>
            cache bc3 = cache bc2 \<and> store bc3 = store bc2" by (rule 1)
  next
    fix buf' p' bc3
    assume "BufferId_of H s buf' \<noteq> BufferId_of H s buf"
      and "LookupOrAdd H s d buf' bc2 = Inr (p', bc3)"
    then show "p' \<noteq> p" by (rule 2)
  next
    fix buf'
    assume "buf' \<noteq> buf \<and> BufferId_of H s buf' = BufferId_of H s buf"
    then show "if d then LookupOrAdd H s d buf' bc2 = Inl DCHECK_memcmp
           else \<exists>bc3. LookupOrAdd H s d buf' bc2 = Inr (p, bc3) \<and>
                      nBufferCacheHits bc3 = nBufferCacheHits bc2 + 1"
      using 3 [of buf'] by simp
  qed
qed

theorem BufferCache_dedup_witness:
  "LookupOrAdds (\<lambda>xs. of_nat (length xs)) 4 True [] (BufferCache_init :: nat BufferCache)
     = Inr ([], BufferCache_init) \<and>
   LookupOrAdd (\<lambda>xs. of_nat (length xs)) 4 True [1, 2, 3] (BufferCache_init :: nat BufferCache)
     = Inr (0, \<lparr>cache = [\<lparr>hash = 3, size_v = 12\<rparr> \<mapsto> 0], store = [0 \<mapsto> [1, 2, 3]],
                next_free = 1, nBufferCacheLookups = 1, nBufferCacheHits = 0,
                redundantBufferBytes = 0\<rparr>) \<and>
   LookupOrAdd (\<lambda>xs. of_nat (length xs)) 4 True [1, 2, 3]
     \<lparr>cache = [\<lparr>hash = 3, size_v = 12\<rparr> \<mapsto> 0], store = [0 \<mapsto> [1, 2, 3 :: nat]],
      next_free = 1, nBufferCacheLookups = 1, nBufferCacheHits = 0,
      redundantBufferBytes = 0\<rparr>
     = Inr (0, \<lparr>cache = [\<lparr>hash = 3, size_v = 12\<rparr> \<mapsto> 0], store = [0 \<mapsto> [1, 2, 3]],
                next_free = 1, nBufferCacheLookups = 2, nBufferCacheHits = 1,
                redundantBufferBytes = 12\<rparr>) \<and>
   LookupOrAdd (\<lambda>xs. of_nat (length xs)) 4 True [7, 8, 9]
     \<lparr>cache = [\<lparr>hash = 3, size_v = 12\<rparr> \<mapsto> 0], store = [0 \<mapsto> [1, 2, 3 :: nat]],
      next_free = 1, nBufferCacheLookups = 1, nBufferCacheHits = 0,
      redundantBufferBytes = 0\<rparr>
     = Inl DCHECK_memcmp"
proof -
  let ?H = "\<lambda>xs :: nat list. (of_nat (length xs) :: uint64_t)"
  let ?bc1 = "\<lparr>cache = [\<lparr>hash = 3, size_v = 12\<rparr> \<mapsto> 0], store = [0 \<mapsto> [1, 2, 3 :: nat]],
      next_free = 1, nBufferCacheLookups = 1, nBufferCacheHits = 0,
      redundantBufferBytes = 0\<rparr>"
  have a: "LookupOrAdds ?H 4 True [] BufferCache_init = Inr ([], BufferCache_init)" by simp
  have b: "LookupOrAdd ?H 4 True [1, 2, 3] BufferCache_init = Inr (0, ?bc1)"
    by (simp add: LookupOrAdd_def BufferCache_init_def BufferId_of_def)
  have c: "LookupOrAdds ?H 4 True [] ?bc1 = Inr ([], ?bc1)" by simp
  note t = BufferCache_dedup [OF a b c]
  have k: "[7, 8, 9] \<noteq> [1, 2, 3 :: nat] \<and> BufferId_of ?H 4 [7, 8, 9] = BufferId_of ?H 4 [1, 2, 3]"
    by (simp add: BufferId_of_def)
  from t have "[7, 8, 9] \<noteq> [1, 2, 3 :: nat] \<and>
      BufferId_of ?H 4 [7, 8, 9] = BufferId_of ?H 4 [1, 2, 3] \<longrightarrow>
      (if True then LookupOrAdd ?H 4 True [7, 8, 9] ?bc1 = Inl DCHECK_memcmp
       else \<exists>bc3. LookupOrAdd ?H 4 True [7, 8, 9] ?bc1 = Inr (0, bc3) \<and>
                      nBufferCacheHits bc3 = nBufferCacheHits ?bc1 + 1)"
    by (elim conjE allE)
  with k have "LookupOrAdd ?H 4 True [7, 8, 9] ?bc1 = Inl DCHECK_memcmp"
    by (simp only: if_True simp_thms)
  moreover have "LookupOrAdd ?H 4 True [1, 2, 3] ?bc1 =
     Inr (0, \<lparr>cache = [\<lparr>hash = 3, size_v = 12\<rparr> \<mapsto> 0], store = [0 \<mapsto> [1, 2, 3]],
                next_free = 1, nBufferCacheLookups = 2, nBufferCacheHits = 1,
                redundantBufferBytes = 12\<rparr>)"
    by (simp add: LookupOrAdd_def BufferId_of_def)
  ultimately show ?thesis using a b by simp
qed

text \<open>C4 as stated fails: that buffers of different content get different pointers
  holds for no hash function at all. There are more 9-byte buffers than 64-bit hashes,
  so two of them share a \<^verbatim>\<open>BufferId\<close>, and in a release build the second of the two is
  a hit on the first.\<close>

theorem BufferCache_distinct_content_counterexample:
  "\<not> (\<exists>H :: 8 word list \<Rightarrow> uint64_t.
        \<forall>b1 b2 p1 bc1 p2 bc2.
          b1 \<noteq> b2 \<longrightarrow>
          LookupOrAdd H 1 False b1 BufferCache_init = Inr (p1, bc1) \<longrightarrow>
          LookupOrAdd H 1 False b2 bc1 = Inr (p2, bc2) \<longrightarrow> p1 \<noteq> p2)"
proof
  assume "\<exists>H :: 8 word list \<Rightarrow> uint64_t.
        \<forall>b1 b2 p1 bc1 p2 bc2.
          b1 \<noteq> b2 \<longrightarrow>
          LookupOrAdd H 1 False b1 BufferCache_init = Inr (p1, bc1) \<longrightarrow>
          LookupOrAdd H 1 False b2 bc1 = Inr (p2, bc2) \<longrightarrow> p1 \<noteq> p2"
  then obtain H :: "8 word list \<Rightarrow> uint64_t" where
    H: "\<And>b1 b2 p1 bc1 p2 bc2. b1 \<noteq> b2 \<Longrightarrow>
          LookupOrAdd H 1 False b1 BufferCache_init = Inr (p1, bc1) \<Longrightarrow>
          LookupOrAdd H 1 False b2 bc1 = Inr (p2, bc2) \<Longrightarrow> p1 \<noteq> p2"
    by blast
  from hash_collision_exists [of H] obtain b1 b2
    where ne: "b1 \<noteq> b2" and l: "length b1 = length b2" and h: "H b1 = H b2" by blast
  obtain bc1 where 1: "LookupOrAdd H 1 False b1 BufferCache_init = Inr (0, bc1)"
    and c: "cache bc1 (BufferId_of H 1 b1) = Some 0"
    by (simp add: LookupOrAdd_def BufferCache_init_def Let_def)
  from l h have "BufferId_of H 1 b2 = BufferId_of H 1 b1" by (simp add: BufferId_of_def)
  with c obtain bc2 where "LookupOrAdd H 1 False b2 bc1 = Inr (0, bc2)"
    by (simp add: LookupOrAdd_def Let_def)
  from H [OF ne 1 this] show False by simp
qed

text \<open>C3: for a bound \<open>b > 0\<close> of width \<open>W\<close> (32 or 64) and a generator with odd
  \<open>inc\<close>, \<^verbatim>\<open>Uniform(b)\<close> uses the threshold \<open>t = (2 ^ W - b) mod b\<close>; it returns: some
  raw draw is at least \<open>t\<close>, and the result is the first such draw reduced modulo \<open>b\<close>,
  which is below \<open>b\<close>, with the generator left after that draw; and every value below
  \<open>b\<close> is the residue of the same number of accepted raw values, \<open>2 ^ W div b\<close> of
  them, so no value is favoured whether or not \<open>b\<close> divides \<open>2 ^ W\<close>.\<close>

theorem Uniform_b_unbiased:
  fixes b :: uint32_t and c :: uint64_t
  assumes "odd (inc_v r)" and "b \<noteq> 0" and "c \<noteq> 0"
  shows "unat ((NOT b + 1) mod b) = (2 ^ 32 - unat b) mod unat b \<and>
         (\<exists>n. (\<forall>i<n. raw32 r i < (NOT b + 1) mod b) \<and> (NOT b + 1) mod b \<le> raw32 r n \<and>
              Uniform_b32 r b = Some (Inr (raw32 r n mod b, after32 r (Suc n))) \<and>
              raw32 r n mod b < b) \<and>
         (\<forall>v. v < b \<longrightarrow>
              card {x. (NOT b + 1) mod b \<le> x \<and> x mod b = v} = 2 ^ 32 div unat b) \<and>
         unat ((NOT c + 1) mod c) = (2 ^ 64 - unat c) mod unat c \<and>
         (\<exists>n. (\<forall>i<n. raw64 r i < (NOT c + 1) mod c) \<and> (NOT c + 1) mod c \<le> raw64 r n \<and>
              Uniform_b64 r c = Some (Inr (raw64 r n mod c, after64 r (Suc n))) \<and>
              raw64 r n mod c < c) \<and>
         (\<forall>w. w < c \<longrightarrow>
              card {x. (NOT c + 1) mod c \<le> x \<and> x mod c = w} = 2 ^ 64 div unat c)"
proof (intro conjI allI impI)
  show "unat ((NOT b + 1) mod b) = (2 ^ 32 - unat b) mod unat b"
    using unat_threshold(1) [OF assms(2)] by simp
  show "unat ((NOT c + 1) mod c) = (2 ^ 64 - unat c) mod unat c"
    using unat_threshold(1) [OF assms(3)] by simp
  show "\<exists>n. (\<forall>i<n. raw32 r i < (NOT b + 1) mod b) \<and> (NOT b + 1) mod b \<le> raw32 r n \<and>
              Uniform_b32 r b = Some (Inr (raw32 r n mod b, after32 r (Suc n))) \<and>
              raw32 r n mod b < b"
    using assms(2,1) by (rule Uniform_b32_returns)
  show "\<exists>n. (\<forall>i<n. raw64 r i < (NOT c + 1) mod c) \<and> (NOT c + 1) mod c \<le> raw64 r n \<and>
              Uniform_b64 r c = Some (Inr (raw64 r n mod c, after64 r (Suc n))) \<and>
              raw64 r n mod c < c"
    using assms(3,1) by (rule Uniform_b64_returns)
next
  fix v assume "v < b"
  with assms(2) show "card {x. (NOT b + 1) mod b \<le> x \<and> x mod b = v} = 2 ^ 32 div unat b"
    using word_residue_count [of b v] by simp
next
  fix w assume "w < c"
  with assms(3) show "card {x. (NOT c + 1) mod c \<le> x \<and> x mod c = w} = 2 ^ 64 div unat c"
    using word_residue_count [of c w] by simp
qed

theorem Uniform_b_unbiased_witness:
  "odd (inc_v RNG_default) \<and> (6 :: uint32_t) \<noteq> 0 \<and> (10 :: uint64_t) \<noteq> 0 \<and>
   (\<exists>v r'. Uniform_b32 RNG_default 6 = Some (Inr (v, r')) \<and> v < 6) \<and>
   (\<exists>v r'. Uniform_b64 RNG_default 10 = Some (Inr (v, r')) \<and> v < 10) \<and>
   card {x :: uint32_t. 4 \<le> x \<and> x mod 6 = 5} = 715827882 \<and>
   card {x :: uint64_t. 6 \<le> x \<and> x mod 10 = 0} = 1844674407370955161"
proof -
  have o: "odd (inc_v RNG_default)" by (simp add: RNG_default_def PCG32_DEFAULT_STREAM_def)
  have b: "(6 :: uint32_t) \<noteq> 0" and c: "(10 :: uint64_t) \<noteq> 0" by simp_all
  note t = Uniform_b_unbiased [OF o b c]
  have t32: "(NOT 6 + 1) mod 6 = (4 :: uint32_t)" by simp
  have t64: "(NOT 10 + 1) mod 10 = (6 :: uint64_t)" by simp
  from t have "\<exists>v r'. Uniform_b32 RNG_default 6 = Some (Inr (v, r')) \<and> v < 6" by blast
  moreover from t have "\<exists>v r'. Uniform_b64 RNG_default 10 = Some (Inr (v, r')) \<and> v < 10" by blast
  moreover from t have "(5 :: uint32_t) < 6 \<longrightarrow>
      card {x :: uint32_t. (NOT 6 + 1) mod 6 \<le> x \<and> x mod 6 = 5} = 2 ^ 32 div unat (6 :: uint32_t)"
    by blast
  then have "card {x :: uint32_t. 4 \<le> x \<and> x mod 6 = 5} = 715827882"
    by (simp add: t32)
  moreover from t have "(0 :: uint64_t) < 10 \<longrightarrow>
      card {x :: uint64_t. (NOT 10 + 1) mod 10 \<le> x \<and> x mod 10 = 0} = 2 ^ 64 div unat (10 :: uint64_t)"
    by blast
  then have "card {x :: uint64_t. 6 \<le> x \<and> x mod 10 = 0} = 1844674407370955161"
    by (simp add: t64)
  ultimately show ?thesis using o by simp
qed

end
